theory Spec2Isabelle
  imports Complex_Main "HOL-Library.Word" "HOL-Library.Signed_Division"
begin

unbundle bit_operations_syntax

section \<open>Bresser 5-in-1 weather logger (Bresser5in1\_CC1101.cpp)\<close>

text \<open>
  A shallow embedding of \<^verbatim>\<open>src/Bresser5in1_CC1101.cpp\<close>: the payload decoder
  \<^verbatim>\<open>decodeBresser5In1Payload\<close>, the wake-time encoder \<^verbatim>\<open>assembleTargetTime\<close>,
  \<^verbatim>\<open>capture\<close>, \<^verbatim>\<open>send\<close> and the sampling state machine of \<^verbatim>\<open>loop\<close>.

  Conventions. A \<^verbatim>\<open>uint8_t\<close> is an \<open>8 word\<close>, a \<^verbatim>\<open>uint64_t\<close> a \<open>64 word\<close>, an
  \<^verbatim>\<open>int32_t\<close> a \<open>32 word\<close> read with \<open>sint\<close>. Intermediate C \<^verbatim>\<open>int\<close> values of the
  decoder (at most \<open>15 * 256 + 255\<close>) are mathematical integers: they are far from the
  32-bit range. A \<^verbatim>\<open>float\<close> is a \<open>real\<close>: binary32 rounding is not modelled, so
  \<^verbatim>\<open>x * 0.1f\<close> is the exact tenth of \<open>x\<close>.
\<close>

type_synonym u8 = "8 word"
type_synonym u32 = "32 word"
type_synonym u64 = "64 word"

subsection \<open>Data\<close>

datatype DecodeStatus = DECODE_OK | DECODE_PAR_ERR | DECODE_CHK_ERR

datatype SamplingState =
    INITIAL_WIFI_CONNECTION
  | REINIT_WIFI_CONNECTION
  | AWAIT_TIME_SLOT
  | CAPTURE_WEATHER_DATA
  | SEND_WEATHER_DATA
  | SLEEP_UNTIL_TIME_SLOT

text \<open>
  Modelled from the spec: \<^verbatim>\<open>WeatherData\<close> is declared in \<^verbatim>\<open>WeatherDataBuffer.h\<close>, which is
  not under \<^verbatim>\<open>src/\<close>. The fields are the ones the source assigns and prints; the spec (section 3)
  gives the sensor id and the humidity as integers, the battery flag as a boolean and the
  other fields as floats.
\<close>

record WeatherData =
  sensor_id :: nat
  temp_c :: real
  humidity :: int
  wind_direction_deg :: real
  wind_gust_meter_sec :: real
  wind_avg_meter_sec :: real
  rain_mm :: real
  battery_ok :: bool
  pressure :: real

text \<open>What \<^verbatim>\<open>Serial.printf\<close> writes from the decoder: the two diagnostics and their arguments.\<close>

datatype serial_msg =
    Parity_wrong_at nat
  | Checksum_wrong u8 u8

subsection \<open>The payload decoder\<close>

text \<open>
  \<^verbatim>\<open>for (unsigned col = 0; col < msgSize / 2; ++col)
      if ((msg[col] ^ msg[col + 13]) != 0xff) { Serial.printf(..., col); return DECODE_PAR_ERR; }\<close>
  The loop as a function of \<open>col\<close>: \<open>Some col\<close> is the early return at \<open>col\<close>, \<open>None\<close> is the
  loop running to its end.
\<close>

function parity_loop :: "u8 list \<Rightarrow> nat \<Rightarrow> nat \<Rightarrow> nat option" where
  "parity_loop msg msgSize col =
     (if col < msgSize div 2
      then (if (msg ! col) XOR (msg ! (col + 13)) \<noteq> 0xff then Some col
            else parity_loop msg msgSize (Suc col))
      else None)"
  by pat_completeness auto
termination
  by (relation "measure (\<lambda>(msg, msgSize, col). msgSize div 2 - col)") auto

declare parity_loop.simps [simp del]

text \<open>
  \<^verbatim>\<open>while (currentByte) { bitsSet += (currentByte & 1); currentByte >>= 1; }\<close>
  with the 8-bit accumulator \<open>bitsSet\<close>: the addition is the one of \<open>8 word\<close>, modulo 256.
\<close>

function count_bits :: "u8 \<Rightarrow> u8 \<Rightarrow> u8" where
  "count_bits currentByte bitsSet =
     (if currentByte \<noteq> 0
      then count_bits (drop_bit 1 currentByte) (bitsSet + (currentByte AND 1))
      else bitsSet)"
  by pat_completeness auto
termination
proof (relation "measure (\<lambda>(currentByte, bitsSet). unat currentByte)")
  show "wf (measure (\<lambda>(currentByte :: u8, bitsSet :: u8). unat currentByte))"
    by simp
next
  fix currentByte bitsSet :: u8
  assume nz: "currentByte \<noteq> 0"
  then have "0 < unat currentByte"
    by (simp add: unat_gt_0)
  then have "unat currentByte div 2 < unat currentByte"
    by simp
  then show "((drop_bit 1 currentByte, bitsSet + (currentByte AND 1)), (currentByte, bitsSet))
      \<in> measure (\<lambda>(currentByte, bitsSet). unat currentByte)"
    by (simp add: drop_bit_eq_div unat_div)
qed

declare count_bits.simps [simp del]

text \<open>\<^verbatim>\<open>for (uint8_t p = 14; p < msgSize; p++) { uint8_t currentByte = msg[p]; while ... }\<close>\<close>

function checksum_loop :: "u8 list \<Rightarrow> nat \<Rightarrow> nat \<Rightarrow> u8 \<Rightarrow> u8" where
  "checksum_loop msg msgSize p bitsSet =
     (if p < msgSize
      then checksum_loop msg msgSize (Suc p) (count_bits (msg ! p) bitsSet)
      else bitsSet)"
  by pat_completeness auto
termination
  by (relation "measure (\<lambda>(msg, msgSize, p, bitsSet). msgSize - p)") auto

declare checksum_loop.simps [simp del]

text \<open>
  The decoder: the message, its size and the record \<open>pOut\<close> points to go in; the status,
  the record as the call leaves it and the lines printed on the serial port come out.
\<close>

definition decodeBresser5In1Payload ::
  "u8 list \<Rightarrow> nat \<Rightarrow> WeatherData \<Rightarrow> DecodeStatus \<times> WeatherData \<times> serial_msg list" where
  "decodeBresser5In1Payload msg msgSize pOut =
     (case parity_loop msg msgSize 0 of
        Some col \<Rightarrow> (DECODE_PAR_ERR, pOut, [Parity_wrong_at col])
      | None \<Rightarrow>
          (let bitsSet = checksum_loop msg msgSize 14 0;
               expectedBitsSet = msg ! 13
           in if bitsSet \<noteq> expectedBitsSet
              then (DECODE_CHK_ERR, pOut, [Checksum_wrong bitsSet expectedBitsSet])
              else
                (let temp_raw = uint (msg ! 20 AND 0x0f)
                       + drop_bit 4 (uint (msg ! 20 AND 0xf0)) * 10
                       + uint (msg ! 21 AND 0x0f) * 100;
                     temp_raw = (if msg ! 25 AND 0x0f \<noteq> 0 then - temp_raw else temp_raw);
                     gust_raw = push_bit 8 (uint (msg ! 17 AND 0x0f)) + uint (msg ! 16);
                     wind_raw = uint (msg ! 18 AND 0x0f)
                       + drop_bit 4 (uint (msg ! 18 AND 0xf0)) * 10
                       + uint (msg ! 19 AND 0x0f) * 100;
                     rain_raw = uint (msg ! 23 AND 0x0f)
                       + drop_bit 4 (uint (msg ! 23 AND 0xf0)) * 10
                       + uint (msg ! 24 AND 0x0f) * 100
                 in (DECODE_OK,
                     pOut\<lparr>sensor_id := unat (msg ! 14),
                          temp_c := real_of_int temp_raw * 0.1,
                          humidity := uint (msg ! 22 AND 0x0f)
                            + drop_bit 4 (uint (msg ! 22 AND 0xf0)) * 10,
                          wind_direction_deg := real_of_int (drop_bit 4 (uint (msg ! 17 AND 0xf0))) * 22.5,
                          wind_gust_meter_sec := real_of_int gust_raw * 0.1,
                          wind_avg_meter_sec := real_of_int wind_raw * 0.1,
                          rain_mm := real_of_int rain_raw * 0.1,
                          battery_ok := (if msg ! 25 AND 0x80 \<noteq> 0 then False else True)\<rparr>,
                     []))))"

subsection \<open>The wake-time encoder\<close>

text \<open>
  \<^verbatim>\<open>struct tm\<close>, with the fields the source reads or writes. \<^verbatim>\<open>tm_mon\<close> counts from 0,
  \<^verbatim>\<open>tm_year\<close> from 1900. The source itself neither reads nor writes \<^verbatim>\<open>tm_wday\<close>, \<^verbatim>\<open>tm_yday\<close>
  and \<^verbatim>\<open>tm_isdst\<close>; they travel with the structure into \<^verbatim>\<open>mktime\<close>, where \<^verbatim>\<open>tm_isdst\<close>
  matters only in a time zone with daylight saving (see \<open>mktime\<close> below).
\<close>

record tm =
  tm_sec :: int
  tm_min :: int
  tm_hour :: int
  tm_mday :: int
  tm_mon :: int
  tm_year :: int

definition is_leap :: "int \<Rightarrow> bool" where
  "is_leap y = ((y mod 4 = 0 \<and> y mod 100 \<noteq> 0) \<or> y mod 400 = 0)"

definition days_in_month :: "int \<Rightarrow> int \<Rightarrow> int" where
  "days_in_month year mon =
     (if mon = 1 then (if is_leap (year + 1900) then 29 else 28)
      else if mon = 3 \<or> mon = 5 \<or> mon = 8 \<or> mon = 10 then 30
      else 31)"

text \<open>Days beyond the end of the month move into the following months and years.\<close>

function roll_days_forward :: "int \<Rightarrow> int \<Rightarrow> int \<Rightarrow> int \<times> int \<times> int" where
  "roll_days_forward year mon mday =
     (if mday > days_in_month year mon
      then (if mon + 1 = 12
            then roll_days_forward (year + 1) 0 (mday - days_in_month year mon)
            else roll_days_forward year (mon + 1) (mday - days_in_month year mon))
      else (year, mon, mday))"
  by pat_completeness auto
termination
  by (relation "measure (\<lambda>(year, mon, mday). nat mday)")
     (auto simp: days_in_month_def split: if_splits)

declare roll_days_forward.simps [simp del]

text \<open>Days before the first of the month move into the preceding months and years.\<close>

function roll_days_backward :: "int \<Rightarrow> int \<Rightarrow> int \<Rightarrow> int \<times> int \<times> int" where
  "roll_days_backward year mon mday =
     (if mday \<le> 0
      then (if mon - 1 = - 1
            then roll_days_backward (year - 1) 11 (mday + days_in_month (year - 1) 11)
            else roll_days_backward year (mon - 1) (mday + days_in_month year (mon - 1)))
      else (year, mon, mday))"
  by pat_completeness auto
termination
  by (relation "measure (\<lambda>(year, mon, mday). nat (1 - mday))")
     (auto simp: days_in_month_def split: if_splits)

declare roll_days_backward.simps [simp del]

text \<open>
  Modelled from the spec: \<^verbatim>\<open>mktime\<close> is the C library's, not under \<^verbatim>\<open>src/\<close>. The source
  calls it for its effect on the structure: it ``normalizes calendar overflow via standard
  rules (minute/hour/day/month rollover)'' (spec, section 4.2). The model is that
  normalisation in a time zone without daylight-saving changes: seconds carry into
  minutes, minutes into hours, hours into days, months into years, and days into months by
  the lengths of the months. The returned \<^verbatim>\<open>time_t\<close> is discarded by the source. In a time
  zone with daylight saving the library also reads \<^verbatim>\<open>tm_isdst\<close>, which \<^verbatim>\<open>assembleTargetTime\<close>
  copies from its argument, and moves the hour when the result lies across a change; that
  is outside this model, and everything proved about the tokens is proved for a zone
  without such changes.
\<close>

definition mktime :: "tm \<Rightarrow> tm" where
  "mktime t =
     (let min0 = tm_min t + tm_sec t div 60;
          hour0 = tm_hour t + min0 div 60;
          mday0 = tm_mday t + hour0 div 24;
          year0 = tm_year t + tm_mon t div 12;
          mon0 = tm_mon t mod 12
      in case (if mday0 \<le> 0 then roll_days_backward year0 mon0 mday0
               else roll_days_forward year0 mon0 mday0) of
           (year, mon, mday) \<Rightarrow>
             \<lparr>tm_sec = tm_sec t mod 60, tm_min = min0 mod 60, tm_hour = hour0 mod 24,
              tm_mday = mday, tm_mon = mon, tm_year = year\<rparr>)"

text \<open>
  \<^verbatim>\<open>outputTime.tm_min += minutesToAdd\<close> adds an \<^verbatim>\<open>int\<close> and a \<^verbatim>\<open>uint32_t\<close>: the sum is
  taken in 32 bits and read back as an \<^verbatim>\<open>int\<close>. The token is built in \<^verbatim>\<open>uint64_t\<close>, each
  \<^verbatim>\<open>int\<close> operand converted to it.
\<close>

definition assembleTargetTime :: "tm \<Rightarrow> u32 \<Rightarrow> u64" where
  "assembleTargetTime timeinfo minutesToAdd =
     (let outputTime = timeinfo;
          outputTime = outputTime\<lparr>tm_sec := 0\<rparr>;
          outputTime = outputTime\<lparr>tm_min := sint (word_of_int (tm_min outputTime) + minutesToAdd)\<rparr>;
          outputTime = mktime outputTime;
          outputTimeEncoded = (word_of_int (tm_year outputTime - 100) :: u64);
          outputTimeEncoded = outputTimeEncoded * 100;
          outputTimeEncoded = outputTimeEncoded + word_of_int (tm_mon outputTime + 1);
          outputTimeEncoded = outputTimeEncoded * 100;
          outputTimeEncoded = outputTimeEncoded + word_of_int (tm_mday outputTime);
          outputTimeEncoded = outputTimeEncoded * 100;
          outputTimeEncoded = outputTimeEncoded + word_of_int (tm_hour outputTime);
          outputTimeEncoded = outputTimeEncoded * 100;
          outputTimeEncoded = outputTimeEncoded + word_of_int (tm_min outputTime)
      in outputTimeEncoded)"

subsection \<open>The collaborators\<close>

text \<open>
  Modelled from the spec: \<^verbatim>\<open>WeatherDataEntry\<close> is declared in \<^verbatim>\<open>WeatherDataBuffer.h\<close>, not
  under \<^verbatim>\<open>src/\<close>: a measurement and its capture timestamp (spec, section 3), with the field
  names \<^verbatim>\<open>emitBufferedDataEntry\<close> reads.
\<close>

record WeatherDataEntry =
  year :: int
  month :: int
  day :: int
  hour :: int
  minute :: int
  second :: int
  weatherData :: WeatherData

text \<open>
  Modelled from the spec: the status codes of RadioLib are not under \<^verbatim>\<open>src/\<close>. The radio
  returns ``Ok, Timeout or Error(code)'' (spec, section 6); the source compares the code with
  \<^verbatim>\<open>RADIOLIB_ERR_NONE\<close> and \<^verbatim>\<open>RADIOLIB_ERR_RX_TIMEOUT\<close> only.
\<close>

datatype radio_state = RADIOLIB_ERR_NONE | RADIOLIB_ERR_RX_TIMEOUT | RADIOLIB_ERR_other int

text \<open>
  Every call the source makes to a collaborator (WiFi, clock, sleep, radio, pressure sensor,
  history buffer, spreadsheet) is an event, with the arguments passed and the value returned.
  The row passed to \<^verbatim>\<open>appendRowToSheet\<close> is ten cells printed from one buffer entry; the
  event carries that entry. The diagnostics of the decoder are events too; the other lines
  the source prints on the serial port are left out.
\<close>

datatype event =
    Ev_handleWifiConnection bool
  | Ev_disconnectWifi
  | Ev_getTime nat
  | Ev_getLocalTime bool tm
  | Ev_delay nat
  | Ev_esp_sleep_enable_timer_wakeup u64
  | Ev_esp_light_sleep_start
  | Ev_radio_receive radio_state "u8 list"
  | Ev_pressureSensorAvailable bool
  | Ev_readPressureSensorHpa real
  | Ev_appendWeatherDataEntry WeatherData
  | Ev_getTotalWeatherDataEntries nat
  | Ev_peekNextWeatherDataEntry bool WeatherDataEntry u32
  | Ev_confirmPeekWeatherDataEntry u32
  | Ev_appendRowToSheet WeatherDataEntry bool
  | Ev_isGoogleAccessTokenInit bool
  | Ev_setupGoogleAccessTokenAcquire int
  | Ev_checkGoogleAccessTokenReady bool
  | Ev_Serial_printf serial_msg

text \<open>
  The collaborators are not under \<^verbatim>\<open>src/\<close>: what each call returns is a parameter, a function
  of everything that happened before the call. Nothing is assumed about these functions.
\<close>

record env =
  reply_handleWifiConnection :: "event list \<Rightarrow> bool"
  reply_getTime :: "event list \<Rightarrow> nat"
  reply_getLocalTime :: "event list \<Rightarrow> bool \<times> tm"
  reply_radio_receive :: "event list \<Rightarrow> radio_state \<times> u8 list"
  reply_pressureSensorAvailable :: "event list \<Rightarrow> bool"
  reply_readPressureSensorHpa :: "event list \<Rightarrow> real"
  reply_getTotalWeatherDataEntries :: "event list \<Rightarrow> nat"
  reply_peekNextWeatherDataEntry :: "event list \<Rightarrow> bool \<times> WeatherDataEntry \<times> u32"
  reply_appendRowToSheet :: "event list \<Rightarrow> bool"
  reply_isGoogleAccessTokenInit :: "event list \<Rightarrow> bool"
  reply_checkGoogleAccessTokenReady :: "event list \<Rightarrow> bool"

definition handleWifiConnection :: "env \<Rightarrow> event list \<Rightarrow> bool \<times> event list" where
  "handleWifiConnection E tr =
     (let r = reply_handleWifiConnection E tr in (r, tr @ [Ev_handleWifiConnection r]))"

definition disconnectWifi :: "event list \<Rightarrow> event list" where
  "disconnectWifi tr = tr @ [Ev_disconnectWifi]"

definition getTime :: "env \<Rightarrow> event list \<Rightarrow> nat \<times> event list" where
  "getTime E tr = (let r = reply_getTime E tr in (r, tr @ [Ev_getTime r]))"

definition getLocalTime :: "env \<Rightarrow> event list \<Rightarrow> (bool \<times> tm) \<times> event list" where
  "getLocalTime E tr =
     (let r = reply_getLocalTime E tr in (r, tr @ [Ev_getLocalTime (fst r) (snd r)]))"

definition delay :: "nat \<Rightarrow> event list \<Rightarrow> event list" where
  "delay ms tr = tr @ [Ev_delay ms]"

definition esp_sleep_enable_timer_wakeup :: "u64 \<Rightarrow> event list \<Rightarrow> event list" where
  "esp_sleep_enable_timer_wakeup time_in_us tr = tr @ [Ev_esp_sleep_enable_timer_wakeup time_in_us]"

definition esp_light_sleep_start :: "event list \<Rightarrow> event list" where
  "esp_light_sleep_start tr = tr @ [Ev_esp_light_sleep_start]"

definition radio_receive :: "env \<Rightarrow> event list \<Rightarrow> (radio_state \<times> u8 list) \<times> event list" where
  "radio_receive E tr =
     (let r = reply_radio_receive E tr in (r, tr @ [Ev_radio_receive (fst r) (snd r)]))"

definition pressureSensorAvailable :: "env \<Rightarrow> event list \<Rightarrow> bool \<times> event list" where
  "pressureSensorAvailable E tr =
     (let r = reply_pressureSensorAvailable E tr in (r, tr @ [Ev_pressureSensorAvailable r]))"

definition readPressureSensorHpa :: "env \<Rightarrow> event list \<Rightarrow> real \<times> event list" where
  "readPressureSensorHpa E tr =
     (let r = reply_readPressureSensorHpa E tr in (r, tr @ [Ev_readPressureSensorHpa r]))"

definition appendWeatherDataEntry :: "WeatherData \<Rightarrow> event list \<Rightarrow> event list" where
  "appendWeatherDataEntry w tr = tr @ [Ev_appendWeatherDataEntry w]"

definition getTotalWeatherDataEntries :: "env \<Rightarrow> event list \<Rightarrow> nat \<times> event list" where
  "getTotalWeatherDataEntries E tr =
     (let r = reply_getTotalWeatherDataEntries E tr in (r, tr @ [Ev_getTotalWeatherDataEntries r]))"

definition peekNextWeatherDataEntry ::
  "env \<Rightarrow> event list \<Rightarrow> (bool \<times> WeatherDataEntry \<times> u32) \<times> event list" where
  "peekNextWeatherDataEntry E tr =
     (case reply_peekNextWeatherDataEntry E tr of
        (ok, dataEntry, entryRead) \<Rightarrow>
          ((ok, dataEntry, entryRead), tr @ [Ev_peekNextWeatherDataEntry ok dataEntry entryRead]))"

definition confirmPeekWeatherDataEntry :: "u32 \<Rightarrow> event list \<Rightarrow> event list" where
  "confirmPeekWeatherDataEntry entryRead tr = tr @ [Ev_confirmPeekWeatherDataEntry entryRead]"

definition appendRowToSheet :: "env \<Rightarrow> WeatherDataEntry \<Rightarrow> event list \<Rightarrow> bool \<times> event list" where
  "appendRowToSheet E dataEntry tr =
     (let r = reply_appendRowToSheet E tr in (r, tr @ [Ev_appendRowToSheet dataEntry r]))"

definition isGoogleAccessTokenInit :: "env \<Rightarrow> event list \<Rightarrow> bool \<times> event list" where
  "isGoogleAccessTokenInit E tr =
     (let r = reply_isGoogleAccessTokenInit E tr in (r, tr @ [Ev_isGoogleAccessTokenInit r]))"

definition setupGoogleAccessTokenAcquire :: "int \<Rightarrow> event list \<Rightarrow> event list" where
  "setupGoogleAccessTokenAcquire expiry tr = tr @ [Ev_setupGoogleAccessTokenAcquire expiry]"

definition checkGoogleAccessTokenReady :: "env \<Rightarrow> event list \<Rightarrow> bool \<times> event list" where
  "checkGoogleAccessTokenReady E tr =
     (let r = reply_checkGoogleAccessTokenReady E tr in (r, tr @ [Ev_checkGoogleAccessTokenReady r]))"

definition Serial_printf :: "serial_msg list \<Rightarrow> event list \<Rightarrow> event list" where
  "Serial_printf msgs tr = tr @ map Ev_Serial_printf msgs"

subsection \<open>Capture\<close>

text \<open>\<^verbatim>\<open>WeatherData weatherData = { 0 };\<close>\<close>

definition WeatherData_zero :: WeatherData where
  "WeatherData_zero =
     \<lparr>sensor_id = 0, temp_c = 0, humidity = 0, wind_direction_deg = 0,
      wind_gust_meter_sec = 0, wind_avg_meter_sec = 0, rain_mm = 0,
      battery_ok = False, pressure = 0\<rparr>"

text \<open>
  \<^verbatim>\<open>capture\<close> (the build without \<^verbatim>\<open>_EMULATE_RECV_\<close>). The decoder gets \<^verbatim>\<open>&recvData[1]\<close> and
  the size \<^verbatim>\<open>sizeof(recvData) - 1 = 26\<close>. \<^verbatim>\<open>readPressureSensorHpa\<close> takes the pressure field
  by reference: the field holds afterwards what the call left there. The debug output
  under \<^verbatim>\<open>_DEBUG_MODE_\<close> and the summary line are not modelled. The local
  \<^verbatim>\<open>weatherData\<close> is \<open>decoded\<close> here (the name is a field of the buffer entry).
\<close>

definition capture :: "env \<Rightarrow> event list \<Rightarrow> bool \<times> event list" where
  "capture E tr =
     (case radio_receive E tr of
        ((state, recvData), tr) \<Rightarrow>
          if state = RADIOLIB_ERR_NONE then
            (if recvData ! 0 = 0xD4 then
               (case decodeBresser5In1Payload (drop 1 recvData) 26 WeatherData_zero of
                  (status, decoded, printed) \<Rightarrow>
                    (let tr = Serial_printf printed tr in
                     if status = DECODE_OK then
                       (case pressureSensorAvailable E tr of
                          (available, tr) \<Rightarrow>
                            (case (if available
                                   then (case readPressureSensorHpa E tr of
                                           (hpa, tr) \<Rightarrow> (decoded\<lparr>pressure := hpa\<rparr>, tr))
                                   else (decoded, tr)) of
                               (decoded, tr) \<Rightarrow>
                                 (case getLocalTime E tr of
                                    (timeinfo, tr) \<Rightarrow>
                                      (True, appendWeatherDataEntry decoded tr))))
                     else (False, tr)))
             else (False, tr))
          else (False, tr))"

subsection \<open>Send\<close>

definition sleepTimeMinutes :: int where
  "sleepTimeMinutes = 10"

text \<open>
  \<^verbatim>\<open>emitBufferedDataEntry\<close>: peek the next entry, print its row, append the row to the sheet
  and confirm the peek when the row was accepted.
\<close>

definition emitBufferedDataEntry :: "env \<Rightarrow> event list \<Rightarrow> bool \<times> event list" where
  "emitBufferedDataEntry E tr =
     (case peekNextWeatherDataEntry E tr of
        ((ok, dataEntry, entryRead), tr) \<Rightarrow>
          if ok then
            (case appendRowToSheet E dataEntry tr of
               (accepted, tr) \<Rightarrow>
                 if accepted then (True, confirmPeekWeatherDataEntry entryRead tr)
                 else (False, tr))
          else (False, tr))"

text \<open>
  \<^verbatim>\<open>for (int i = 0; i < 20 && !handleWifiConnection(); i++) { delay(250); }\<close>
\<close>

function wifi_wait_inner :: "env \<Rightarrow> nat \<Rightarrow> event list \<Rightarrow> event list" where
  "wifi_wait_inner E i tr =
     (if i < 20
      then (case handleWifiConnection E tr of
              (wifi_up, tr) \<Rightarrow>
                if \<not> wifi_up then wifi_wait_inner E (Suc i) (delay 250 tr) else tr)
      else tr)"
  by pat_completeness auto
termination
  by (relation "measure (\<lambda>(E, i, tr). 20 - i)") auto

declare wifi_wait_inner.simps [simp del]

text \<open>
  \<^verbatim>\<open>for (int retry = 0; retry < 6 && !handleWifiConnection(); retry++) { for ... }\<close>
\<close>

function wifi_wait :: "env \<Rightarrow> nat \<Rightarrow> event list \<Rightarrow> event list" where
  "wifi_wait E retry tr =
     (if retry < 6
      then (case handleWifiConnection E tr of
              (wifi_up, tr) \<Rightarrow>
                if \<not> wifi_up then wifi_wait E (Suc retry) (wifi_wait_inner E 0 tr) else tr)
      else tr)"
  by pat_completeness auto
termination
  by (relation "measure (\<lambda>(E, retry, tr). 6 - retry)") auto

declare wifi_wait.simps [simp del]

text \<open>
  \<^verbatim>\<open>for (int i = 0; !checkGoogleAccessTokenReady() && i < 60; i++) { delay(500); }\<close>
\<close>

function token_wait :: "env \<Rightarrow> nat \<Rightarrow> event list \<Rightarrow> event list" where
  "token_wait E i tr =
     (case checkGoogleAccessTokenReady E tr of
        (ready, tr) \<Rightarrow>
          if \<not> ready \<and> i < 60 then token_wait E (Suc i) (delay 500 tr) else tr)"
  by pat_completeness auto
termination
  by (relation "measure (\<lambda>(E, i, tr). 60 - i)") auto

declare token_wait.simps [simp del]

text \<open>
  \<^verbatim>\<open>for (int i = 0; i < 20 && getTotalWeatherDataEntries() > 0; i++) {
      sent |= emitBufferedDataEntry(); delay(250); }\<close>
\<close>

function upload_loop :: "env \<Rightarrow> nat \<Rightarrow> bool \<Rightarrow> event list \<Rightarrow> bool \<times> event list" where
  "upload_loop E i sent tr =
     (if i < 20
      then (case getTotalWeatherDataEntries E tr of
              (entries, tr) \<Rightarrow>
                if entries > 0
                then (case emitBufferedDataEntry E tr of
                        (emitted, tr) \<Rightarrow> upload_loop E (Suc i) (sent \<or> emitted) (delay 250 tr))
                else (sent, tr))
      else (sent, tr))"
  by pat_completeness auto
termination
  by (relation "measure (\<lambda>(E, i, sent, tr). 20 - i)") auto

declare upload_loop.simps [simp del]

definition send :: "env \<Rightarrow> event list \<Rightarrow> bool \<times> event list" where
  "send E tr =
     (let tr = delay 100 tr;
          sent = False;
          tr = wifi_wait E 0 tr
      in case handleWifiConnection E tr of
           (wifi_up, tr) \<Rightarrow>
             if \<not> wifi_up then (False, tr)
             else
               (case isGoogleAccessTokenInit E tr of
                  (initialised, tr) \<Rightarrow>
                    (let tr = (if \<not> initialised
                               then setupGoogleAccessTokenAcquire (sleepTimeMinutes * 60 + 30)
                                      (delay 100 tr)
                               else tr);
                         tr = delay 100 tr;
                         tr = token_wait E 0 tr;
                         tr = delay 100 tr
                     in case checkGoogleAccessTokenReady E tr of
                          (ready, tr) \<Rightarrow>
                            if ready
                            then (case getTotalWeatherDataEntries E tr of
                                    (entries, tr) \<Rightarrow> upload_loop E 0 sent (delay 100 tr))
                            else (sent, tr))))"

subsection \<open>The sampling state machine\<close>

text \<open>The globals of the sketch.\<close>

record globals =
  samplingState :: SamplingState
  wifiReinitAttempts :: u32
  targetWakeTime :: u64
  lightSlept :: bool

text \<open>
  Modelled from the spec: \<^verbatim>\<open>getTime\<close> is declared in \<^verbatim>\<open>WifiHandler.h\<close>, not under
  \<^verbatim>\<open>src/\<close>; it returns the epoch seconds as an unsigned number (spec, section 6). The
  threshold it is compared with is \<^verbatim>\<open>24 * 60 * 60 * 21\<close>.
\<close>

definition time_synced_threshold :: nat where
  "time_synced_threshold = 24 * 60 * 60 * 21"

text \<open>
  One call of \<^verbatim>\<open>loop\<close>. \<^verbatim>\<open>wifiReinitAttempts\<close> is an \<^verbatim>\<open>int32_t\<close>, compared as a signed
  number. \<^verbatim>\<open>tm_min % sleepTimeMinutes\<close> is C's remainder, which truncates (\<open>smod\<close>);
  \<^verbatim>\<open>minutesToWait\<close> and \<^verbatim>\<open>secondsToWait\<close> are \<^verbatim>\<open>uint64_t\<close>, and \<^verbatim>\<open>minutesToWait\<close> is passed
  to \<^verbatim>\<open>assembleTargetTime\<close> as a \<^verbatim>\<open>uint32_t\<close>.
\<close>

definition loop :: "env \<Rightarrow> globals \<times> event list \<Rightarrow> globals \<times> event list" where
  "loop E = (\<lambda>(g, tr).
     case samplingState g of
       INITIAL_WIFI_CONNECTION \<Rightarrow>
         (case handleWifiConnection E tr of
            (wifi_up, tr) \<Rightarrow>
              if wifi_up then (g\<lparr>samplingState := SLEEP_UNTIL_TIME_SLOT\<rparr>, tr) else (g, tr))
     | REINIT_WIFI_CONNECTION \<Rightarrow>
         (case handleWifiConnection E tr of
            (wifi_up, tr) \<Rightarrow>
              if wifi_up then
                (let g = g\<lparr>samplingState := CAPTURE_WEATHER_DATA\<rparr> in
                 if lightSlept g = True
                 then (g\<lparr>lightSlept := False\<rparr>, tr @ replicate 10 (Ev_delay 1000))
                 else (g, tr))
              else
                (if sint (wifiReinitAttempts g) < 40
                 then (g\<lparr>wifiReinitAttempts := wifiReinitAttempts g + 1\<rparr>, delay 500 tr)
                 else (case getTime E tr of
                         (now, tr) \<Rightarrow>
                           if now \<ge> time_synced_threshold
                           then (g\<lparr>samplingState := AWAIT_TIME_SLOT\<rparr>, tr)
                           else (g\<lparr>samplingState := SLEEP_UNTIL_TIME_SLOT\<rparr>, tr))))
     | AWAIT_TIME_SLOT \<Rightarrow>
         (case getLocalTime E tr of
            ((ok, timeinfo), tr) \<Rightarrow>
              if ok then
                (let currentTime = assembleTargetTime timeinfo 0 in
                 if currentTime \<ge> targetWakeTime g
                 then (g\<lparr>samplingState := CAPTURE_WEATHER_DATA\<rparr>, tr)
                 else (g, delay 2000 tr))
              else (g, tr))
     | CAPTURE_WEATHER_DATA \<Rightarrow>
         (case capture E tr of
            (captured, tr) \<Rightarrow>
              if captured then (g\<lparr>samplingState := SEND_WEATHER_DATA\<rparr>, tr) else (g, tr))
     | SEND_WEATHER_DATA \<Rightarrow>
         (case send E tr of
            (sent, tr) \<Rightarrow> (g\<lparr>samplingState := SLEEP_UNTIL_TIME_SLOT\<rparr>, tr))
     | SLEEP_UNTIL_TIME_SLOT \<Rightarrow>
         (case getLocalTime E tr of
            ((ok, timeinfo), tr) \<Rightarrow>
              if ok then
                (let minutesToWait =
                       (word_of_int (sleepTimeMinutes - tm_min timeinfo smod sleepTimeMinutes) :: u64);
                     secondsToWait = minutesToWait * 60;
                     secondsToWait = secondsToWait - word_of_int (tm_sec timeinfo);
                     g = g\<lparr>targetWakeTime := assembleTargetTime timeinfo (ucast minutesToWait)\<rparr>
                 in if secondsToWait \<ge> 30
                    then
                      (let g = g\<lparr>samplingState := REINIT_WIFI_CONNECTION\<rparr>;
                           g = g\<lparr>wifiReinitAttempts := 0\<rparr>;
                           tr = disconnectWifi tr;
                           tr = delay 1000 tr;
                           g = g\<lparr>lightSlept := True\<rparr>;
                           tr = esp_sleep_enable_timer_wakeup (secondsToWait * 1000000) tr;
                           tr = esp_light_sleep_start tr
                       in (g, tr))
                    else (g\<lparr>samplingState := AWAIT_TIME_SLOT\<rparr>, tr))
              else (g, tr)))"

section \<open>Notions of the specification\<close>

subsection \<open>Frames\<close>

text \<open>The number of set bits of a byte, and the two nibbles of a byte as numbers.\<close>

definition popcount :: "u8 \<Rightarrow> nat" where
  "popcount w = length (filter (bit w) [0..<8])"

definition lo_nibble :: "u8 \<Rightarrow> nat" where
  "lo_nibble b = unat b mod 16"

definition hi_nibble :: "u8 \<Rightarrow> nat" where
  "hi_nibble b = unat b div 16"

text \<open>The example payload of the comment above \<^verbatim>\<open>decodeBresser5In1Payload\<close>.\<close>

definition example_payload :: "u8 list" where
  "example_payload =
     [0xEA, 0xEC, 0x7F, 0xEB, 0x5F, 0xEE, 0xEF, 0xFA, 0xFE, 0x76, 0xBB, 0xFA, 0xFF,
      0x15, 0x13, 0x80, 0x14, 0xA0, 0x11, 0x10, 0x05, 0x01, 0x89, 0x44, 0x05, 0x00]"

text \<open>
  The example with byte 16 changed (the parity breaks at offset 3, and the count of set
  bits no longer matches either), the example with bytes 1 and 14 changed together (the
  parity holds, the count does not), and a record that holds an earlier measurement.
\<close>

definition corrupt_payload :: "u8 list" where
  "corrupt_payload = example_payload[16 := 0x15]"

definition miscounted_payload :: "u8 list" where
  "miscounted_payload = example_payload[1 := 0xE8, 14 := 0x17]"

definition stale_record :: WeatherData where
  "stale_record =
     \<lparr>sensor_id = 7, temp_c = 21.5, humidity = 40, wind_direction_deg = 90,
      wind_gust_meter_sec = 3.2, wind_avg_meter_sec = 1.5, rain_mm = 12.3,
      battery_ok = True, pressure = 1013.25\<rparr>"

subsection \<open>The scheduler\<close>

text \<open>
  The seconds from a local time to the next wall-clock multiple of the sampling interval:
  the boundary is aligned to the clock, not counted from now.
\<close>

definition seconds_to_next_slot :: "tm \<Rightarrow> int" where
  "seconds_to_next_slot t = (sleepTimeMinutes - tm_min t mod sleepTimeMinutes) * 60 - tm_sec t"

text \<open>
  The frame a capture attempt receives after the history \<open>tr\<close>: it decodes when the radio
  reports no error, the sync byte is there and the decoder returns \<open>DECODE_OK\<close>; it fails
  when the radio times out, or the decoder returns the parity or the checksum error.
\<close>

definition frame_decodes :: "env \<Rightarrow> event list \<Rightarrow> bool" where
  "frame_decodes E tr =
     (case reply_radio_receive E tr of
        (state, recvData) \<Rightarrow>
          state = RADIOLIB_ERR_NONE \<and> recvData ! 0 = 0xD4 \<and>
          fst (decodeBresser5In1Payload (drop 1 recvData) 26 WeatherData_zero) = DECODE_OK)"

definition frame_fails :: "env \<Rightarrow> event list \<Rightarrow> bool" where
  "frame_fails E tr =
     (case reply_radio_receive E tr of
        (state, recvData) \<Rightarrow>
          state = RADIOLIB_ERR_RX_TIMEOUT \<or>
          (state = RADIOLIB_ERR_NONE \<and> recvData ! 0 = 0xD4 \<and>
           (fst (decodeBresser5In1Payload (drop 1 recvData) 26 WeatherData_zero) = DECODE_PAR_ERR \<or>
            fst (decodeBresser5In1Payload (drop 1 recvData) 26 WeatherData_zero) = DECODE_CHK_ERR)))"

text \<open>
  Collaborators and globals for the examples: collaborators that refuse everything; a
  clock; a radio that times out, then delivers a corrupt frame, then the example frame; a
  radio that delivers the example payload after a wrong sync byte.
\<close>

definition quiet_env :: env where
  "quiet_env =
     \<lparr>reply_handleWifiConnection = (\<lambda>tr. False),
      reply_getTime = (\<lambda>tr. 0),
      reply_getLocalTime = (\<lambda>tr. (False, \<lparr>tm_sec = 0, tm_min = 0, tm_hour = 0, tm_mday = 1, tm_mon = 0, tm_year = 70\<rparr>)),
      reply_radio_receive = (\<lambda>tr. (RADIOLIB_ERR_RX_TIMEOUT, [])),
      reply_pressureSensorAvailable = (\<lambda>tr. False),
      reply_readPressureSensorHpa = (\<lambda>tr. 0),
      reply_getTotalWeatherDataEntries = (\<lambda>tr. 0),
      reply_peekNextWeatherDataEntry =
        (\<lambda>tr. (False,
          \<lparr>year = 0, month = 0, day = 0, hour = 0, minute = 0, second = 0,
           weatherData = WeatherData_zero\<rparr>, 0)),
      reply_appendRowToSheet = (\<lambda>tr. False),
      reply_isGoogleAccessTokenInit = (\<lambda>tr. False),
      reply_checkGoogleAccessTokenReady = (\<lambda>tr. False)\<rparr>"

definition initial_globals :: globals where
  "initial_globals =
     \<lparr>samplingState = INITIAL_WIFI_CONNECTION, wifiReinitAttempts = 0,
      targetWakeTime = 0, lightSlept = False\<rparr>"

definition clock_env :: "nat \<Rightarrow> tm \<Rightarrow> env" where
  "clock_env epoch now =
     quiet_env\<lparr>reply_getTime := (\<lambda>tr. epoch), reply_getLocalTime := (\<lambda>tr. (True, now))\<rparr>"

definition noon_07_20 :: tm where
  "noon_07_20 = \<lparr>tm_sec = 20, tm_min = 7, tm_hour = 12, tm_mday = 15, tm_mon = 0, tm_year = 122\<rparr>"

definition noon_09_45 :: tm where
  "noon_09_45 = \<lparr>tm_sec = 45, tm_min = 9, tm_hour = 12, tm_mday = 15, tm_mon = 0, tm_year = 122\<rparr>"

definition sleeping_globals :: globals where
  "sleeping_globals = initial_globals\<lparr>samplingState := SLEEP_UNTIL_TIME_SLOT, wifiReinitAttempts := 17\<rparr>"

definition reinit_globals :: "u32 \<Rightarrow> globals" where
  "reinit_globals attempts =
     initial_globals\<lparr>samplingState := REINIT_WIFI_CONNECTION, wifiReinitAttempts := attempts,
       lightSlept := True\<rparr>"

definition flaky_radio_env :: env where
  "flaky_radio_env =
     quiet_env\<lparr>reply_radio_receive :=
       (\<lambda>tr. if length tr = 0 then (RADIOLIB_ERR_RX_TIMEOUT, replicate 27 0)
             else if length tr = 1 then (RADIOLIB_ERR_NONE, 0xD4 # corrupt_payload)
             else (RADIOLIB_ERR_NONE, 0xD4 # example_payload))\<rparr>"

definition capturing_globals :: globals where
  "capturing_globals = initial_globals\<lparr>samplingState := CAPTURE_WEATHER_DATA\<rparr>"

definition unsynced_frame_env :: env where
  "unsynced_frame_env =
     quiet_env\<lparr>reply_radio_receive := (\<lambda>tr. (RADIOLIB_ERR_NONE, 0x00 # example_payload))\<rparr>"

subsection \<open>The upload cycle\<close>

text \<open>
  The calls of a history that touch the buffer's read side or the sheet: peeking the next
  entry, appending a row, confirming a peek.
\<close>

fun is_upload_event :: "event \<Rightarrow> bool" where
  "is_upload_event (Ev_peekNextWeatherDataEntry ok e t) = True"
| "is_upload_event (Ev_appendRowToSheet e accepted) = True"
| "is_upload_event (Ev_confirmPeekWeatherDataEntry t) = True"
| "is_upload_event _ = False"

text \<open>
  An upload cycle of at most \<open>n\<close> attempts, read off these calls. Each attempt is a peek
  that found nothing; or a peek and a row of the peeked entry that the sheet refused, with
  no confirmation, so that the entry stays in the buffer; or a peek, a row of the peeked
  entry that the sheet accepted, and the confirmation of that very peek.
\<close>

fun upload_cycle :: "nat \<Rightarrow> event list \<Rightarrow> bool" where
  "upload_cycle n [] = True"
| "upload_cycle 0 (x # xs) = False"
| "upload_cycle (Suc n) (Ev_peekNextWeatherDataEntry ok e t # xs) =
     (if \<not> ok then upload_cycle n xs
      else (case xs of
              Ev_appendRowToSheet e' accepted # ys \<Rightarrow>
                e' = e \<and>
                (if \<not> accepted then upload_cycle n ys
                 else (case ys of
                         Ev_confirmPeekWeatherDataEntry t' # zs \<Rightarrow> t' = t \<and> upload_cycle n zs
                       | _ \<Rightarrow> False))
            | _ \<Rightarrow> False))"
| "upload_cycle (Suc n) (x # xs) = False"

text \<open>Rows offered to the sheet, rows it accepted, and confirmations.\<close>

fun is_row_offered :: "event \<Rightarrow> bool" where
  "is_row_offered (Ev_appendRowToSheet e accepted) = True"
| "is_row_offered _ = False"

fun is_row_accepted :: "event \<Rightarrow> bool" where
  "is_row_accepted (Ev_appendRowToSheet e accepted) = accepted"
| "is_row_accepted _ = False"

fun is_confirmation :: "event \<Rightarrow> bool" where
  "is_confirmation (Ev_confirmPeekWeatherDataEntry t) = True"
| "is_confirmation _ = False"

text \<open>A history grows without a call that touches the buffer's read side or the sheet.\<close>

definition extends_quietly :: "event list \<Rightarrow> event list \<Rightarrow> bool" where
  "extends_quietly tr tr' = (\<exists>new. tr' = tr @ new \<and> filter is_upload_event new = [])"

text \<open>
  Collaborators for the example: WiFi is up, the token is ready, the buffer holds two
  entries and the sheet refuses the second row offered to it.
\<close>

definition entry_a :: WeatherDataEntry where
  "entry_a = \<lparr>year = 22, month = 1, day = 15, hour = 12, minute = 0, second = 3,
     weatherData = WeatherData_zero\<lparr>sensor_id := 19, humidity := 89\<rparr>\<rparr>"

definition entry_b :: WeatherDataEntry where
  "entry_b = \<lparr>year = 22, month = 1, day = 15, hour = 12, minute = 10, second = 4,
     weatherData = WeatherData_zero\<lparr>sensor_id := 19, humidity := 88\<rparr>\<rparr>"

definition upload_env :: env where
  "upload_env =
     quiet_env\<lparr>reply_handleWifiConnection := (\<lambda>tr. True),
       reply_isGoogleAccessTokenInit := (\<lambda>tr. True),
       reply_checkGoogleAccessTokenReady := (\<lambda>tr. True),
       reply_getTotalWeatherDataEntries := (\<lambda>tr. 2 - length (filter is_confirmation tr)),
       reply_peekNextWeatherDataEntry :=
         (\<lambda>tr. if length (filter is_confirmation tr) = 0 then (True, entry_a, 0)
               else (True, entry_b, 1)),
       reply_appendRowToSheet := (\<lambda>tr. length (filter is_row_offered tr) \<noteq> 1)\<rparr>"

definition sending_globals :: globals where
  "sending_globals = initial_globals\<lparr>samplingState := SEND_WEATHER_DATA\<rparr>"

text \<open>
  The value an event records is the value the collaborator returns after the history \<open>h\<close>.
  A run of events answers to the collaborators when each of its events does, after the
  history and the events of the run before it.
\<close>

fun answered_by :: "env \<Rightarrow> event list \<Rightarrow> event \<Rightarrow> bool" where
  "answered_by E h (Ev_handleWifiConnection b) = (b = reply_handleWifiConnection E h)"
| "answered_by E h (Ev_getTime n) = (n = reply_getTime E h)"
| "answered_by E h (Ev_getLocalTime ok t) = ((ok, t) = reply_getLocalTime E h)"
| "answered_by E h (Ev_radio_receive s d) = ((s, d) = reply_radio_receive E h)"
| "answered_by E h (Ev_pressureSensorAvailable b) = (b = reply_pressureSensorAvailable E h)"
| "answered_by E h (Ev_readPressureSensorHpa p) = (p = reply_readPressureSensorHpa E h)"
| "answered_by E h (Ev_getTotalWeatherDataEntries n) = (n = reply_getTotalWeatherDataEntries E h)"
| "answered_by E h (Ev_peekNextWeatherDataEntry ok e t) =
     ((ok, e, t) = reply_peekNextWeatherDataEntry E h)"
| "answered_by E h (Ev_appendRowToSheet e accepted) = (accepted = reply_appendRowToSheet E h)"
| "answered_by E h (Ev_isGoogleAccessTokenInit b) = (b = reply_isGoogleAccessTokenInit E h)"
| "answered_by E h (Ev_checkGoogleAccessTokenReady b) = (b = reply_checkGoogleAccessTokenReady E h)"
| "answered_by E h _ = True"

fun answers :: "env \<Rightarrow> event list \<Rightarrow> event list \<Rightarrow> bool" where
  "answers E h [] = True"
| "answers E h (e # es) = (answered_by E h e \<and> answers E (h @ [e]) es)"

text \<open>The answers to the WiFi checks and to the token checks of a run, in order.\<close>

fun wifi_answers :: "event list \<Rightarrow> bool list" where
  "wifi_answers [] = []"
| "wifi_answers (Ev_handleWifiConnection up # es) = up # wifi_answers es"
| "wifi_answers (e # es) = wifi_answers es"

fun token_answers :: "event list \<Rightarrow> bool list" where
  "token_answers [] = []"
| "token_answers (Ev_checkGoogleAccessTokenReady ready # es) = ready # token_answers es"
| "token_answers (e # es) = token_answers es"

text \<open>
  The calls of an upload cycle: the count of the buffered entries, and the calls that touch
  the buffer's read side or the sheet.
\<close>

fun is_cycle_event :: "event \<Rightarrow> bool" where
  "is_cycle_event (Ev_getTotalWeatherDataEntries n) = True"
| "is_cycle_event e = is_upload_event e"

fun is_entry_peeked :: "event \<Rightarrow> bool" where
  "is_entry_peeked (Ev_peekNextWeatherDataEntry ok e t) = True"
| "is_entry_peeked _ = False"

text \<open>
  The attempts of an upload cycle with \<open>n\<close> attempts left, read off these calls. With no
  attempt left nothing is called. Otherwise the count is asked: a count of zero ends the
  cycle; a positive count is followed by an attempt (a peek that found nothing; a peek and
  a refused row of the peeked entry; or a peek, an accepted row of the peeked entry and the
  confirmation of that very peek) and by the attempts that are left.
\<close>

fun upload_attempts :: "nat \<Rightarrow> event list \<Rightarrow> bool" where
  "upload_attempts 0 xs = (xs = [])"
| "upload_attempts (Suc n) [] = False"
| "upload_attempts (Suc n) (Ev_getTotalWeatherDataEntries c # xs) =
     (if c = 0 then xs = []
      else (case xs of
              Ev_peekNextWeatherDataEntry ok e t # ys \<Rightarrow>
                (if \<not> ok then upload_attempts n ys
                 else (case ys of
                         Ev_appendRowToSheet e' accepted # zs \<Rightarrow>
                           e' = e \<and>
                           (if \<not> accepted then upload_attempts n zs
                            else (case zs of
                                    Ev_confirmPeekWeatherDataEntry t' # ws \<Rightarrow>
                                      t' = t \<and> upload_attempts n ws
                                  | _ \<Rightarrow> False))
                       | _ \<Rightarrow> False))
            | _ \<Rightarrow> False))"
| "upload_attempts (Suc n) (x # xs) = False"

text \<open>
  A run performs one upload cycle: WiFi is checked, and the last answer decides. With WiFi
  down the token is not checked and neither the buffer nor the sheet is called. With WiFi up
  the token is checked, and the last answer decides. With the token not ready neither the
  buffer nor the sheet is called. With the token ready the count is asked once, and the
  attempts of a cycle of 20 follow.
\<close>

definition performs_upload_cycle :: "event list \<Rightarrow> bool" where
  "performs_upload_cycle new =
     (wifi_answers new \<noteq> [] \<and>
      (if \<not> last (wifi_answers new)
       then token_answers new = [] \<and> filter is_cycle_event new = []
       else token_answers new \<noteq> [] \<and>
            (if \<not> last (token_answers new) then filter is_cycle_event new = []
             else (case filter is_cycle_event new of
                     Ev_getTotalWeatherDataEntries c # rest \<Rightarrow> upload_attempts 20 rest
                   | _ \<Rightarrow> False))))"

text \<open>The calls of the loops of \<^verbatim>\<open>send\<close> that wait for WiFi, and of its part that waits for the token.\<close>

fun is_connect_event :: "event \<Rightarrow> bool" where
  "is_connect_event (Ev_handleWifiConnection up) = True"
| "is_connect_event (Ev_delay ms) = True"
| "is_connect_event _ = False"

fun is_token_event :: "event \<Rightarrow> bool" where
  "is_token_event (Ev_isGoogleAccessTokenInit b) = True"
| "is_token_event (Ev_setupGoogleAccessTokenAcquire expiry) = True"
| "is_token_event (Ev_checkGoogleAccessTokenReady ready) = True"
| "is_token_event (Ev_delay ms) = True"
| "is_token_event _ = False"

text \<open>A history grows by calls of one kind, each answered by the collaborators.\<close>

definition extends_with :: "(event \<Rightarrow> bool) \<Rightarrow> env \<Rightarrow> event list \<Rightarrow> event list \<Rightarrow> bool" where
  "extends_with P E tr tr' = (\<exists>new. tr' = tr @ new \<and> answers E tr new \<and> list_all P new)"

text \<open>
  Collaborators for a second example: WiFi is up, the token is ready, the buffer always
  holds 30 entries and the sheet refuses every row.
\<close>

definition backlog_env :: env where
  "backlog_env =
     quiet_env\<lparr>reply_handleWifiConnection := (\<lambda>tr. True),
       reply_isGoogleAccessTokenInit := (\<lambda>tr. True),
       reply_checkGoogleAccessTokenReady := (\<lambda>tr. True),
       reply_getTotalWeatherDataEntries := (\<lambda>tr. 30),
       reply_peekNextWeatherDataEntry := (\<lambda>tr. (True, entry_a, 0)),
       reply_appendRowToSheet := (\<lambda>tr. False)\<rparr>"

subsection \<open>Calendar times and tokens\<close>

text \<open>
  A valid calendar time: every field in its range, the day within the month. The year
  field is a C \<^verbatim>\<open>int\<close>.
\<close>

definition valid_tm :: "tm \<Rightarrow> bool" where
  "valid_tm t =
     (0 \<le> tm_sec t \<and> tm_sec t \<le> 60 \<and> 0 \<le> tm_min t \<and> tm_min t < 60 \<and>
      0 \<le> tm_hour t \<and> tm_hour t < 24 \<and> 0 \<le> tm_mon t \<and> tm_mon t < 12 \<and>
      1 \<le> tm_mday t \<and> tm_mday t \<le> days_in_month (tm_year t) (tm_mon t))"

definition c_int_range :: "int \<Rightarrow> bool" where
  "c_int_range x = (- (2 ^ 31) \<le> x \<and> x < 2 ^ 31)"

text \<open>
  Chronological order of two calendar times: at minute granularity (year, month, day, hour,
  minute), and down to the second. Two times are of the same minute when they differ in the
  seconds at most, and in the same century when their years (counted from 1900) lie in the
  same block of a hundred.
\<close>

definition minute_less :: "tm \<Rightarrow> tm \<Rightarrow> bool" where
  "minute_less a b =
     (tm_year a < tm_year b \<or> tm_year a = tm_year b \<and>
      (tm_mon a < tm_mon b \<or> tm_mon a = tm_mon b \<and>
       (tm_mday a < tm_mday b \<or> tm_mday a = tm_mday b \<and>
        (tm_hour a < tm_hour b \<or> tm_hour a = tm_hour b \<and> tm_min a < tm_min b))))"

definition tm_less :: "tm \<Rightarrow> tm \<Rightarrow> bool" where
  "tm_less a b =
     (minute_less a b \<or>
      tm_year a = tm_year b \<and> tm_mon a = tm_mon b \<and> tm_mday a = tm_mday b \<and>
      tm_hour a = tm_hour b \<and> tm_min a = tm_min b \<and> tm_sec a < tm_sec b)"

definition same_minute :: "tm \<Rightarrow> tm \<Rightarrow> bool" where
  "same_minute a b =
     (tm_year a = tm_year b \<and> tm_mon a = tm_mon b \<and> tm_mday a = tm_mday b \<and>
      tm_hour a = tm_hour b \<and> tm_min a = tm_min b)"

definition same_century :: "tm \<Rightarrow> tm \<Rightarrow> bool" where
  "same_century a b = (tm_year a div 100 = tm_year b div 100)"

text \<open>
  The digits of the token as a number: year within the century, month, day, hour and
  minute, two decimal digits each.
\<close>

definition token_of :: "tm \<Rightarrow> int" where
  "token_of t =
     ((((tm_year t - 100) * 100 + (tm_mon t + 1)) * 100 + tm_mday t) * 100 + tm_hour t) * 100
       + tm_min t"

text \<open>
  The calendar time \<open>k\<close> minutes after the minute of \<open>t\<close>, and the day after the day of
  \<open>t\<close>.
\<close>

definition add_minutes :: "tm \<Rightarrow> nat \<Rightarrow> tm" where
  "add_minutes t k = mktime (t\<lparr>tm_sec := 0, tm_min := tm_min t + int k\<rparr>)"

definition next_day :: "tm \<Rightarrow> tm" where
  "next_day t =
     (if tm_mday t < days_in_month (tm_year t) (tm_mon t) then t\<lparr>tm_mday := tm_mday t + 1\<rparr>
      else if tm_mon t < 11 then t\<lparr>tm_mday := 1, tm_mon := tm_mon t + 1\<rparr>
      else t\<lparr>tm_mday := 1, tm_mon := 0, tm_year := tm_year t + 1\<rparr>)"

text \<open>Two more times of January 2022 for the examples.\<close>

definition noon_07_45 :: tm where
  "noon_07_45 = \<lparr>tm_sec = 45, tm_min = 7, tm_hour = 12, tm_mday = 15, tm_mon = 0, tm_year = 122\<rparr>"

definition month_end_23_55 :: tm where
  "month_end_23_55 = \<lparr>tm_sec = 30, tm_min = 55, tm_hour = 23, tm_mday = 31, tm_mon = 0, tm_year = 122\<rparr>"

section \<open>The decoder\<close>

subsection \<open>The loops and the masks\<close>

text \<open>
  The inner loop adds the set bits of one byte to the accumulator, modulo 256; the outer
  loop does so for the bytes from \<open>p\<close> up to the size. Over bytes 14 to 25 the sum is at most
  96, so the accumulator holds it exactly.
\<close>

lemma popcount_le: "popcount w \<le> 8"
  unfolding popcount_def using length_filter_le [of "bit w" "[0..<8]"] by simp

lemma upt_8_shift: "[0..<8] = 0 # map Suc [0..<7]"
  by (simp add: upt_conv_Cons map_Suc_upt del: upt_Suc)

lemma popcount_rec: "popcount w = (if odd w then 1 else 0) + popcount (drop_bit 1 w)"
proof -
  have a: "filter (bit w) (map Suc [0..<7]) = map Suc (filter (bit (drop_bit 1 w)) [0..<7])"
    by (simp add: filter_map comp_def bit_Suc drop_bit_eq_div)
  have b: "\<not> bit (drop_bit 1 w) 7"
    by (auto simp: bit_drop_bit_eq dest: bit_imp_le_length) 
  have c: "[0..<8] = [0..<7] @ [7]" using upt_Suc_append [of 0 7] by simp
  have "popcount (drop_bit 1 w) = length (filter (bit (drop_bit 1 w)) [0..<7])"
    unfolding popcount_def c using b by simp
  moreover have "popcount w = (if odd w then 1 else 0) + length (filter (bit w) (map Suc [0..<7]))"
    unfolding popcount_def upt_8_shift by (simp add: bit_0)
  ultimately show ?thesis using a by simp
qed

lemma unat_count_bits: "unat (count_bits w acc) = (unat acc + popcount w) mod 256"
proof (induction w acc rule: count_bits.induct)
  case (1 currentByte bitsSet)
  show ?case
  proof (cases "currentByte = 0")
    case True
    have "unat bitsSet < 2 ^ LENGTH(8)" by (rule unsigned_less)
    then have "unat bitsSet < 256" by simp
    with True show ?thesis by (simp add: popcount_def count_bits.simps)
  next
    case False
    have "unat (currentByte AND 1) = (if odd currentByte then 1 else 0)"
      by (simp add: and_one_eq mod_2_eq_odd)
    then show ?thesis
      using False 1
      apply (subst count_bits.simps)
      apply (subst popcount_rec)
      apply (simp add: unat_word_ariths mod_simps)
      done 
  qed
qed

lemma unat_checksum_loop:
  "unat (checksum_loop msg n p acc) = (unat acc + (\<Sum>q = p..<n. popcount (msg ! q))) mod 256"
proof (induction msg n p acc rule: checksum_loop.induct)
  case (1 msg msgSize p bitsSet)
  show ?case
  proof (cases "p < msgSize")
    case True
    then have "(\<Sum>q = p..<msgSize. popcount (msg ! q)) = popcount (msg ! p) + (\<Sum>q = Suc p..<msgSize. popcount (msg ! q))"
      by (simp add: sum.atLeast_Suc_lessThan)
    with True 1 show ?thesis
      apply (subst checksum_loop.simps)
      apply (simp add: unat_count_bits mod_simps add.assoc)
      done
  next
    case False
    have "unat bitsSet < 2 ^ LENGTH(8)" by (rule unsigned_less)
    then have "unat bitsSet < 256" by simp
    with False show ?thesis by (simp add: checksum_loop.simps)
  qed
qed

lemma payload_popcount_le: "(\<Sum>q = 14..<26. popcount (msg ! q)) \<le> 96"
proof -
  have "(\<Sum>q = 14..<26. popcount (msg ! q)) \<le> (\<Sum>q = 14..<(26::nat). 8)"
    by (rule sum_mono) (rule popcount_le)
  then show ?thesis by simp
qed

lemma unat_checksum_payload:
  "unat (checksum_loop msg 26 14 0) = (\<Sum>q = 14..<26. popcount (msg ! q))"
  using payload_popcount_le [of msg] by (simp add: unat_checksum_loop)

text \<open>
  The parity loop runs to its end exactly when every offset it visits passes, and returns
  early at the first offset that does not.
\<close>

lemma parity_loop_None_iff:
  "parity_loop msg n col = None \<longleftrightarrow> (\<forall>i. col \<le> i \<and> i < n div 2 \<longrightarrow> msg ! i XOR msg ! (i + 13) = 0xff)"
proof (induction msg n col rule: parity_loop.induct)
  case (1 msg msgSize col)
  show ?case
  proof (cases "col < msgSize div 2 \<and> msg ! col XOR msg ! (col + 13) = 0xff")
    case True
    with 1 have "parity_loop msg msgSize col = None \<longleftrightarrow> (\<forall>i. Suc col \<le> i \<and> i < msgSize div 2 \<longrightarrow> msg ! i XOR msg ! (i + 13) = 0xff)"
      by (subst parity_loop.simps) simp
    also have "\<dots> \<longleftrightarrow> (\<forall>i. col \<le> i \<and> i < msgSize div 2 \<longrightarrow> msg ! i XOR msg ! (i + 13) = 0xff)"
    proof (intro iffI allI impI)
      fix i
      assume a: "\<forall>i. Suc col \<le> i \<and> i < msgSize div 2 \<longrightarrow> msg ! i XOR msg ! (i + 13) = 0xff"
        and b: "col \<le> i \<and> i < msgSize div 2"
      show "msg ! i XOR msg ! (i + 13) = 0xff"
      proof (cases "i = col")
        case True
        with \<open>col < msgSize div 2 \<and> msg ! col XOR msg ! (col + 13) = 0xff\<close> show ?thesis by simp
      next
        case False
        with b have "Suc col \<le> i" by simp
        with a b show ?thesis by blast
      qed
    next
      fix i
      assume a: "\<forall>i. col \<le> i \<and> i < msgSize div 2 \<longrightarrow> msg ! i XOR msg ! (i + 13) = 0xff"
        and b: "Suc col \<le> i \<and> i < msgSize div 2"
      then have "col \<le> i \<and> i < msgSize div 2" by simp
      with a show "msg ! i XOR msg ! (i + 13) = 0xff" by blast
    qed
    finally show ?thesis .
  next
    case False
    then show ?thesis
      by (subst parity_loop.simps) auto
  qed
qed

lemma parity_loop_Some:
  assumes "col \<le> i" "i < n div 2" "msg ! i XOR msg ! (i + 13) \<noteq> 0xff"
    and "\<forall>j. col \<le> j \<and> j < i \<longrightarrow> msg ! j XOR msg ! (j + 13) = 0xff"
  shows "parity_loop msg n col = Some i"
  using assms
proof (induction msg n col rule: parity_loop.induct)
  case (1 msg msgSize col)
  show ?case
  proof (cases "col = i")
    case True
    with 1 show ?thesis by (subst parity_loop.simps) simp
  next
    case False
    with 1(2) have lt: "col < i" by simp
    with 1(3) have c: "col < msgSize div 2" by simp
    from lt 1(5) have ok: "msg ! col XOR msg ! (col + 13) = 0xff" by simp
    have "parity_loop msg msgSize (Suc col) = Some i"
    proof (rule 1(1))
      show "col < msgSize div 2" by (rule c)
      show "\<not> msg ! col XOR msg ! (col + 13) \<noteq> 0xff" using ok by simp
      show "Suc col \<le> i" using lt by simp
      show "i < msgSize div 2" by (rule 1(3))
      show "msg ! i XOR msg ! (i + 13) \<noteq> 0xff" by (rule 1(4))
      show "\<forall>j. Suc col \<le> j \<and> j < i \<longrightarrow> msg ! j XOR msg ! (j + 13) = 0xff"
        using 1(5) by simp
    qed
    with c ok show ?thesis by (subst parity_loop.simps) simp
  qed
qed

text \<open>
  The masks and shifts of the field extraction, as nibbles: \<^verbatim>\<open>b & 0x0f\<close> is the low nibble,
  \<^verbatim>\<open>(b & 0xf0) >> 4\<close> the high one, \<^verbatim>\<open>b & 0x80\<close> tests bit 7, and adding a byte to a value
  shifted left by 8 is the bitwise or.
\<close>

lemma and_0x0f_take_bit: "b AND 0x0f = take_bit 4 b" for b :: u8
  using take_bit_eq_mask [of 4 b] by (simp add: mask_eq_exp_minus_1)

lemma uint_lt_256: "uint b < 256" for b :: u8
  using uint_bounded [of b] by simp

lemma lo_nibble_code: "uint (b AND 0x0f) = int (lo_nibble b)" for b :: u8
proof -
  have "uint (take_bit 4 b) = take_bit 4 (uint b)"
    by (rule unsigned_take_bit_eq)
  then show ?thesis
    by (simp add: and_0x0f_take_bit lo_nibble_def take_bit_eq_mod zmod_int del: take_bit_eq_mod [symmetric])
qed

lemma hi_nibble_code: "drop_bit 4 (uint (b AND 0xf0)) = int (hi_nibble b)" for b :: u8
proof -
  have m: "(15 :: int) = mask 4" by (simp add: mask_eq_exp_minus_1)
  have "drop_bit 4 (uint (b AND 0xf0)) = drop_bit 4 (uint b) AND 15"
    by (simp add: uint_and drop_bit_and)
  also have "\<dots> = take_bit 4 (drop_bit 4 (uint b))"
    unfolding m by (simp add: take_bit_eq_mask)
  also have "\<dots> = drop_bit 4 (uint b)"
  proof (rule take_bit_int_eq_self)
    have "0 \<le> uint b" by simp
    then show "0 \<le> drop_bit 4 (uint b)" by (simp add: drop_bit_eq_div pos_imp_zdiv_nonneg_iff)
    show "drop_bit 4 (uint b) < 2 ^ 4"
      using uint_lt_256 [of b] by (simp add: drop_bit_eq_div)
  qed
  also have "\<dots> = int (hi_nibble b)"
    by (simp add: hi_nibble_def drop_bit_eq_div zdiv_int)
  finally show ?thesis .
qed

lemma lo_nibble_nonzero: "(b AND 0x0f \<noteq> 0) = (lo_nibble b \<noteq> 0)" for b :: u8
proof -
  have "(b AND 0x0f = 0) = (uint (b AND 0x0f) = 0)"
    by (simp add: uint_0_iff)
  then show ?thesis by (simp add: lo_nibble_code)
qed

lemma high_bit_code: "(b AND 0x80 \<noteq> 0) = bit b 7" for b :: u8
proof -
  have "(b AND 2 ^ 7 = 0) = (\<not> bit b 7)"
    by (rule and_exp_eq_0_iff_not_bit)
  then have "(b AND 0x80 = 0) = (\<not> bit b 7)"
    by simp
  then show ?thesis by simp
qed

lemma gust_or: "push_bit 8 x + uint b = push_bit 8 x OR uint b" for b :: u8 and x :: int
proof (rule disjunctive_add)
  fix n
  show "\<not> bit (push_bit 8 x) n \<or> \<not> bit (uint b) n"
    by (auto simp: bit_push_bit_iff bit_uint_iff dest: bit_imp_le_length)
qed

subsection \<open>Valid payloads\<close>

text \<open>
  For a 26-byte message the parity loop visits the offsets below 13, and the checksum
  comparison is the comparison of the exact count with byte 13.
\<close>

lemma parity_loop_26_None:
  "\<forall>i<13. msg ! i XOR msg ! (i + 13) = 0xff \<Longrightarrow> parity_loop msg 26 0 = None"
  by (simp add: parity_loop_None_iff)

lemma checksum_eq_iff:
  "(checksum_loop msg 26 14 0 = msg ! 13) = ((\<Sum>p = 14..<26. popcount (msg ! p)) = unat (msg ! 13))"
  using unat_checksum_payload [of msg] by (metis word_unat_eq_iff)

lemma example_payload_parity: "\<forall>i<13. example_payload ! i XOR example_payload ! (i + 13) = 0xff"
  unfolding example_payload_def
  by (simp add: numeral_eq_Suc less_Suc_eq all_conj_distrib) 

lemma example_payload_popcount:
  "(\<Sum>p = 14..<26. popcount (example_payload ! p)) = unat (example_payload ! 13)"
  by code_simp

text \<open>
  Claim C1. A 26-byte payload whose first 13 bytes are the complements of the last 13 and
  whose byte 13 is the number of set bits of bytes 14 to 25 decodes to \<open>DECODE_OK\<close>, and the
  record holds exactly the fields of the map: the sensor id is byte 14; the gust is
  \<open>((byte17 AND 0x0F) << 8) OR byte16\<close> tenths; the wind direction is the high nibble of
  byte 17 times 22.5; the average wind, the temperature and the rainfall are the three
  binary-coded decimal digits (ones, tens, hundreds) in tenths, the temperature negated when
  the low nibble of byte 25 is not zero; the humidity is the two digits of byte 22; the
  battery is low (\<open>battery_ok\<close> is false) exactly when the high bit of byte 25 is set. The
  pressure keeps the value it had, and nothing is printed.
\<close>

theorem decode_valid_payload:
  assumes len: "length msg = 26"
    and par: "\<forall>i<13. msg ! i XOR msg ! (i + 13) = 0xff"
    and chk: "(\<Sum>p = 14..<26. popcount (msg ! p)) = unat (msg ! 13)"
  shows "decodeBresser5In1Payload msg 26 pOut =
     (DECODE_OK,
      pOut\<lparr>sensor_id := unat (msg ! 14),
           temp_c :=
             (if lo_nibble (msg ! 25) \<noteq> 0
              then - (real (lo_nibble (msg ! 20) + 10 * hi_nibble (msg ! 20) + 100 * lo_nibble (msg ! 21)) * 0.1)
              else real (lo_nibble (msg ! 20) + 10 * hi_nibble (msg ! 20) + 100 * lo_nibble (msg ! 21)) * 0.1),
           humidity := int (lo_nibble (msg ! 22) + 10 * hi_nibble (msg ! 22)),
           wind_direction_deg := real (hi_nibble (msg ! 17)) * 22.5,
           wind_gust_meter_sec :=
             real_of_int (push_bit 8 (int (lo_nibble (msg ! 17))) OR uint (msg ! 16)) * 0.1,
           wind_avg_meter_sec :=
             real (lo_nibble (msg ! 18) + 10 * hi_nibble (msg ! 18) + 100 * lo_nibble (msg ! 19)) * 0.1,
           rain_mm :=
             real (lo_nibble (msg ! 23) + 10 * hi_nibble (msg ! 23) + 100 * lo_nibble (msg ! 24)) * 0.1,
           battery_ok := \<not> bit (msg ! 25) 7\<rparr>,
      [])"
proof -
  have p: "parity_loop msg 26 0 = None"
    using par by (rule parity_loop_26_None)
  have c: "checksum_loop msg 26 14 0 = msg ! 13"
    using chk by (simp add: checksum_eq_iff)
  have bcd3: "uint (a AND 0x0f) + drop_bit 4 (uint (a AND 0xf0)) * 10 + uint (b AND 0x0f) * 100
      = int (lo_nibble a + 10 * hi_nibble a + 100 * lo_nibble b)" for a b :: u8
    by (simp add: lo_nibble_code hi_nibble_code)
  have neg: "real_of_int (- int n) * 0.1 = - (real n * 0.1)" for n
    by simp
  have pos: "real_of_int (int n) * 0.1 = real n * 0.1" for n
    by simp
  have temp: "real_of_int (if msg ! 25 AND 0x0f \<noteq> 0
        then - (uint (msg ! 20 AND 0x0f) + drop_bit 4 (uint (msg ! 20 AND 0xf0)) * 10
                + uint (msg ! 21 AND 0x0f) * 100)
        else uint (msg ! 20 AND 0x0f) + drop_bit 4 (uint (msg ! 20 AND 0xf0)) * 10
                + uint (msg ! 21 AND 0x0f) * 100) * 0.1
      = (if lo_nibble (msg ! 25) \<noteq> 0
         then - (real (lo_nibble (msg ! 20) + 10 * hi_nibble (msg ! 20) + 100 * lo_nibble (msg ! 21)) * 0.1)
         else real (lo_nibble (msg ! 20) + 10 * hi_nibble (msg ! 20) + 100 * lo_nibble (msg ! 21)) * 0.1)"
  proof (cases "lo_nibble (msg ! 25) \<noteq> 0")
    case True
    then show ?thesis
      unfolding bcd3 lo_nibble_nonzero by (simp only: simp_thms if_True if_False neg pos)
  next
    case False
    then show ?thesis
      unfolding bcd3 lo_nibble_nonzero by (simp only: simp_thms if_True if_False neg pos)
  qed
  have hum: "uint (msg ! 22 AND 0x0f) + drop_bit 4 (uint (msg ! 22 AND 0xf0)) * 10
      = int (lo_nibble (msg ! 22) + 10 * hi_nibble (msg ! 22))"
    by (simp add: lo_nibble_code hi_nibble_code)
  have dir: "real_of_int (drop_bit 4 (uint (msg ! 17 AND 0xf0))) * 22.5
      = real (hi_nibble (msg ! 17)) * 22.5"
    by (simp add: hi_nibble_code)
  have gust: "real_of_int (push_bit 8 (uint (msg ! 17 AND 0x0f)) + uint (msg ! 16)) * 0.1
      = real_of_int (push_bit 8 (int (lo_nibble (msg ! 17))) OR uint (msg ! 16)) * 0.1"
    by (simp only: gust_or lo_nibble_code)
  have wind: "real_of_int (uint (msg ! 18 AND 0x0f) + drop_bit 4 (uint (msg ! 18 AND 0xf0)) * 10
        + uint (msg ! 19 AND 0x0f) * 100) * 0.1
      = real (lo_nibble (msg ! 18) + 10 * hi_nibble (msg ! 18) + 100 * lo_nibble (msg ! 19)) * 0.1"
    unfolding bcd3 by simp
  have rain: "real_of_int (uint (msg ! 23 AND 0x0f) + drop_bit 4 (uint (msg ! 23 AND 0xf0)) * 10
        + uint (msg ! 24 AND 0x0f) * 100) * 0.1
      = real (lo_nibble (msg ! 23) + 10 * hi_nibble (msg ! 23) + 100 * lo_nibble (msg ! 24)) * 0.1"
    unfolding bcd3 by simp
  have batt: "(if msg ! 25 AND 0x80 \<noteq> 0 then False else True) = (\<not> bit (msg ! 25) 7)"
    by (simp add: high_bit_code)
  show ?thesis
    unfolding decodeBresser5In1Payload_def p c Let_def temp hum dir gust wind rain batt
    by simp
qed

theorem decode_valid_payload_witness:
  "length example_payload = 26 \<and>
   decodeBresser5In1Payload example_payload 26 WeatherData_zero =
     (DECODE_OK,
      \<lparr>sensor_id = 19, temp_c = 10.5, humidity = 89, wind_direction_deg = 225,
       wind_gust_meter_sec = 2, wind_avg_meter_sec = 1.1, rain_mm = 54.4,
       battery_ok = True, pressure = 0\<rparr>,
      [])"
proof -
  have len: "length example_payload = 26"
    by (simp add: example_payload_def)
  show ?thesis
    using decode_valid_payload [OF len example_payload_parity example_payload_popcount, of WeatherData_zero]
    by (simp add: len example_payload_def WeatherData_zero_def lo_nibble_def hi_nibble_def)
qed

subsection \<open>Invalid payloads and the checksum\<close>

lemma unat_of_nat_u8: "n < 256 \<Longrightarrow> unat (of_nat n :: u8) = n"
  by (simp add: unat_of_nat)

lemma checksum_loop_of_nat:
  "checksum_loop msg 26 14 0 = of_nat (\<Sum>p = 14..<26. popcount (msg ! p))"
proof -
  have "unat (of_nat (\<Sum>p = 14..<26. popcount (msg ! p)) :: u8) = (\<Sum>p = 14..<26. popcount (msg ! p))"
    using payload_popcount_le [of msg] unat_of_nat_u8 [of "\<Sum>p = 14..<26. popcount (msg ! p)"]
    by (simp del: of_nat_sum)
  then show ?thesis
    by (simp add: word_unat_eq_iff unat_checksum_payload del: of_nat_sum)
qed

text \<open>
  The two invalid examples: where the parity breaks, and what the counts are.
\<close>

lemma corrupt_payload_parity:
  "corrupt_payload ! 3 XOR corrupt_payload ! (3 + 13) \<noteq> 0xff \<and>
   (\<forall>j<3. corrupt_payload ! j XOR corrupt_payload ! (j + 13) = 0xff)"
  unfolding corrupt_payload_def example_payload_def
  by (simp add: numeral_eq_Suc less_Suc_eq all_conj_distrib)

lemma miscounted_payload_parity:
  "\<forall>i<13. miscounted_payload ! i XOR miscounted_payload ! (i + 13) = 0xff"
  unfolding miscounted_payload_def example_payload_def
  by (simp add: numeral_eq_Suc less_Suc_eq all_conj_distrib)

lemma miscounted_payload_popcount:
  "(\<Sum>p = 14..<26. popcount (miscounted_payload ! p)) = 22"
  by code_simp

lemma corrupt_payload_popcount:
  "(\<Sum>p = 14..<26. popcount (corrupt_payload ! p)) = 22"
  by code_simp

lemma miscounted_payload_status:
  "fst (decodeBresser5In1Payload miscounted_payload 26 stale_record) = DECODE_CHK_ERR"
proof -
  have p: "parity_loop miscounted_payload 26 0 = None"
    using miscounted_payload_parity by (rule parity_loop_26_None)
  have "unat (miscounted_payload ! 13) = 21"
    by (simp add: miscounted_payload_def example_payload_def)
  then have c: "checksum_loop miscounted_payload 26 14 0 \<noteq> miscounted_payload ! 13"
    unfolding checksum_eq_iff miscounted_payload_popcount by simp
  show ?thesis
    using c by (simp add: decodeBresser5In1Payload_def p Let_def)
qed

lemma example_payload_status:
  "fst (decodeBresser5In1Payload example_payload 26 stale_record) = DECODE_OK"
proof -
  have p: "parity_loop example_payload 26 0 = None"
    using example_payload_parity by (rule parity_loop_26_None)
  have c: "checksum_loop example_payload 26 14 0 = example_payload ! 13"
    by (simp add: checksum_eq_iff example_payload_popcount)
  show ?thesis
    by (simp add: decodeBresser5In1Payload_def p c Let_def)
qed

text \<open>
  Claim C2. The decoder validates in order and fails fast, with a diagnostic. When some
  offset below 13 breaks the parity, it returns \<open>DECODE_PAR_ERR\<close> and reports the smallest
  such offset, whatever the checksum is: the only line printed is the parity line. When
  the parity holds and the number of set bits of bytes 14 to 25 differs from byte 13, it
  returns \<open>DECODE_CHK_ERR\<close> and reports the computed count and the expected value, byte 13.
  The status is the value returned; the offset and the two counts are what the source
  prints with \<^verbatim>\<open>Serial.printf\<close>.
\<close>

theorem decode_fails_fast:
  assumes "length msg = 26"
  shows "(\<forall>i<13. msg ! i XOR msg ! (i + 13) \<noteq> 0xff \<and> (\<forall>j<i. msg ! j XOR msg ! (j + 13) = 0xff) \<longrightarrow>
            decodeBresser5In1Payload msg 26 pOut = (DECODE_PAR_ERR, pOut, [Parity_wrong_at i]))
       \<and> ((\<forall>i<13. msg ! i XOR msg ! (i + 13) = 0xff) \<and>
            (\<Sum>p = 14..<26. popcount (msg ! p)) \<noteq> unat (msg ! 13) \<longrightarrow>
            decodeBresser5In1Payload msg 26 pOut =
              (DECODE_CHK_ERR, pOut,
               [Checksum_wrong (of_nat (\<Sum>p = 14..<26. popcount (msg ! p))) (msg ! 13)]))"
proof (intro conjI allI impI)
  fix i :: nat
  assume i: "i < 13"
    and bad: "msg ! i XOR msg ! (i + 13) \<noteq> 0xff \<and> (\<forall>j<i. msg ! j XOR msg ! (j + 13) = 0xff)"
  have "parity_loop msg 26 0 = Some i"
    using i bad by (intro parity_loop_Some) simp_all
  then show "decodeBresser5In1Payload msg 26 pOut = (DECODE_PAR_ERR, pOut, [Parity_wrong_at i])"
    by (simp add: decodeBresser5In1Payload_def)
next
  assume a: "(\<forall>i<13. msg ! i XOR msg ! (i + 13) = 0xff) \<and>
     (\<Sum>p = 14..<26. popcount (msg ! p)) \<noteq> unat (msg ! 13)"
  then have p: "parity_loop msg 26 0 = None"
    by (simp add: parity_loop_26_None)
  from a have c: "checksum_loop msg 26 14 0 \<noteq> msg ! 13"
    by (simp add: checksum_eq_iff)
  show "decodeBresser5In1Payload msg 26 pOut =
      (DECODE_CHK_ERR, pOut,
       [Checksum_wrong (of_nat (\<Sum>p = 14..<26. popcount (msg ! p))) (msg ! 13)])"
    using c by (simp add: decodeBresser5In1Payload_def p Let_def checksum_loop_of_nat)
qed

theorem decode_fails_fast_witness:
  "length corrupt_payload = 26 \<and> length miscounted_payload = 26 \<and>
   (\<Sum>p = 14..<26. popcount (corrupt_payload ! p)) \<noteq> unat (corrupt_payload ! 13) \<and>
   decodeBresser5In1Payload corrupt_payload 26 stale_record =
     (DECODE_PAR_ERR, stale_record, [Parity_wrong_at 3]) \<and>
   decodeBresser5In1Payload miscounted_payload 26 stale_record =
     (DECODE_CHK_ERR, stale_record, [Checksum_wrong 22 21])"
proof -
  have l1: "length corrupt_payload = 26"
    by (simp add: corrupt_payload_def example_payload_def)
  have l2: "length miscounted_payload = 26"
    by (simp add: miscounted_payload_def example_payload_def)
  have e1: "unat (corrupt_payload ! 13) = 21"
    by (simp add: corrupt_payload_def example_payload_def)
  have e2: "miscounted_payload ! 13 = 21"
    by (simp add: miscounted_payload_def example_payload_def)
  have "decodeBresser5In1Payload corrupt_payload 26 stale_record =
     (DECODE_PAR_ERR, stale_record, [Parity_wrong_at 3])"
    using decode_fails_fast [OF l1, of stale_record] corrupt_payload_parity by simp
  moreover have "decodeBresser5In1Payload miscounted_payload 26 stale_record =
     (DECODE_CHK_ERR, stale_record, [Checksum_wrong 22 21])"
    using decode_fails_fast [OF l2, of stale_record] miscounted_payload_parity
    by (simp add: miscounted_payload_popcount e2)
  ultimately show ?thesis
    using l1 l2 by (simp add: corrupt_payload_popcount e1)
qed

text \<open>
  Claim C3. When the decoder returns the parity or the checksum error, the record
  \<open>pOut\<close> points to is left exactly as it was before the call; and the pressure field is
  never written, also when the decoder succeeds.
\<close>

theorem decode_failure_writes_nothing:
  assumes "length msg = 26"
    and "decodeBresser5In1Payload msg 26 pOut = (status, pOut', printed)"
  shows "(status = DECODE_PAR_ERR \<or> status = DECODE_CHK_ERR \<longrightarrow> pOut' = pOut) \<and>
         pressure pOut' = pressure pOut"
  using assms(2)
  by (auto simp: decodeBresser5In1Payload_def Let_def split: option.splits if_splits)

theorem decode_failure_writes_nothing_witness:
  "length miscounted_payload = 26 \<and> length example_payload = 26 \<and>
   fst (decodeBresser5In1Payload miscounted_payload 26 stale_record) = DECODE_CHK_ERR \<and>
   fst (snd (decodeBresser5In1Payload miscounted_payload 26 stale_record)) = stale_record \<and>
   fst (decodeBresser5In1Payload example_payload 26 stale_record) = DECODE_OK \<and>
   pressure (fst (snd (decodeBresser5In1Payload example_payload 26 stale_record))) = 1013.25"
proof -
  have l1: "length miscounted_payload = 26"
    by (simp add: miscounted_payload_def example_payload_def)
  have l2: "length example_payload = 26"
    by (simp add: example_payload_def)
  obtain s1 r1 p1 where d1:
    "decodeBresser5In1Payload miscounted_payload 26 stale_record = (s1, r1, p1)"
    by (cases "decodeBresser5In1Payload miscounted_payload 26 stale_record")
  obtain s2 r2 p2 where d2:
    "decodeBresser5In1Payload example_payload 26 stale_record = (s2, r2, p2)"
    by (cases "decodeBresser5In1Payload example_payload 26 stale_record")
  from d1 miscounted_payload_status have "s1 = DECODE_CHK_ERR"
    by simp
  with decode_failure_writes_nothing [OF l1 d1] have "r1 = stale_record"
    by simp
  moreover from decode_failure_writes_nothing [OF l2 d2] have "pressure r2 = 1013.25"
    by (simp add: stale_record_def)
  ultimately show ?thesis
    using l1 l2 d1 d2 miscounted_payload_status example_payload_status by simp
qed

text \<open>
  Claim C9. The 8-bit accumulator \<open>bitsSet\<close> ends as the exact number of set bits of bytes
  14 to 25: that number is at most \<open>12 * 8 = 96\<close>, so the additions never wrap modulo 256,
  and the comparison with byte 13 is the comparison of the exact count with byte 13.
\<close>

theorem checksum_accumulator_exact:
  assumes "length msg = 26"
  shows "unat (checksum_loop msg 26 14 0) = (\<Sum>p = 14..<26. popcount (msg ! p)) \<and>
         (\<Sum>p = 14..<26. popcount (msg ! p)) \<le> 12 * 8 \<and>
         ((checksum_loop msg 26 14 0 \<noteq> msg ! 13) =
          ((\<Sum>p = 14..<26. popcount (msg ! p)) \<noteq> unat (msg ! 13)))"
  using payload_popcount_le [of msg] by (simp add: unat_checksum_payload checksum_eq_iff)

theorem checksum_accumulator_exact_witness:
  "length example_payload = 26 \<and>
   unat (checksum_loop example_payload 26 14 0) = 21 \<and>
   checksum_loop example_payload 26 14 0 = example_payload ! 13 \<and>
   length miscounted_payload = 26 \<and>
   unat (checksum_loop miscounted_payload 26 14 0) = 22 \<and>
   checksum_loop miscounted_payload 26 14 0 \<noteq> miscounted_payload ! 13"
proof -
  have l1: "length miscounted_payload = 26"
    by (simp add: miscounted_payload_def example_payload_def)
  have l2: "length example_payload = 26"
    by (simp add: example_payload_def)
  have e1: "unat (miscounted_payload ! 13) = 21"
    by (simp add: miscounted_payload_def example_payload_def)
  have e2: "unat (example_payload ! 13) = 21"
    by (simp add: example_payload_def)
  show ?thesis
    using checksum_accumulator_exact [OF l1] checksum_accumulator_exact [OF l2]
      example_payload_popcount miscounted_payload_popcount l1 l2 e1 e2
    by simp
qed


section \<open>The wake-time encoder\<close>

text \<open>
  On a valid calendar time with the seconds at zero the normalisation changes nothing, so
  the token of a valid time packs its own fields.
\<close>

lemma days_in_month_bounds: "28 \<le> days_in_month y m \<and> days_in_month y m \<le> 31"
  by (simp add: days_in_month_def)

lemma roll_days_forward_id:
  "d \<le> days_in_month y m \<Longrightarrow> roll_days_forward y m d = (y, m, d)"
  by (subst roll_days_forward.simps) simp

lemma mktime_valid:
  assumes "valid_tm t" "tm_sec t = 0"
  shows "mktime t = t"
  using assms
  by (cases t) (simp add: mktime_def valid_tm_def Let_def roll_days_forward_id)

lemma assembleTargetTime_token:
  "assembleTargetTime t k =
     word_of_int (token_of (mktime (t\<lparr>tm_sec := 0, tm_min := sint (word_of_int (tm_min t) + k)\<rparr>)))"
  by (simp add: assembleTargetTime_def Let_def token_of_def)

lemma sint_add_minutes:
  assumes "0 \<le> m" "m + int k < 2 ^ 31"
  shows "sint (word_of_int m + of_nat k :: u32) = m + int k"
proof -
  have a: "(word_of_int m + of_nat k :: u32) = word_of_int (m + int k)"
    by simp
  have b: "sint (word_of_int (m + int k) :: u32) = signed_take_bit (LENGTH(32) - 1) (m + int k)"
    by (rule sint_sbintrunc')
  have c: "signed_take_bit (LENGTH(32) - 1) (m + int k) = m + int k"
    using assms by (intro signed_take_bit_int_eq_self) simp_all
  show ?thesis
    unfolding a b c ..
qed

lemma assembleTargetTime_add:
  assumes "0 \<le> tm_min t" "tm_min t + int k < 2 ^ 31"
  shows "assembleTargetTime t (of_nat k) = word_of_int (token_of (add_minutes t k))"
  unfolding assembleTargetTime_token add_minutes_def sint_add_minutes [OF assms] ..

lemma assembleTargetTime_now:
  assumes "valid_tm t"
  shows "assembleTargetTime t 0 = word_of_int (token_of (t\<lparr>tm_sec := 0\<rparr>))"
proof -
  have "0 \<le> tm_min t" "tm_min t + int 0 < 2 ^ 31"
    using assms by (simp_all add: valid_tm_def)
  then have "assembleTargetTime t (of_nat 0) = word_of_int (token_of (add_minutes t 0))"
    by (rule assembleTargetTime_add)
  moreover have "add_minutes t 0 = t\<lparr>tm_sec := 0\<rparr>"
    unfolding add_minutes_def using assms
    by (simp add: valid_tm_def mktime_valid)
  ultimately show ?thesis by simp
qed

text \<open>
  The digits order the tokens as the calendar orders the minutes: each group stays below
  100. As 64-bit unsigned numbers the tokens keep that order as long as the years lie on the
  same side of 2000, where \<^verbatim>\<open>tm_year - 100\<close> changes its sign and the conversion to
  \<^verbatim>\<open>uint64_t\<close> wraps.
\<close>

lemma minute_trichotomy:
  "minute_less a b \<or> minute_less b a \<or>
   (tm_year a = tm_year b \<and> tm_mon a = tm_mon b \<and> tm_mday a = tm_mday b \<and>
    tm_hour a = tm_hour b \<and> tm_min a = tm_min b)"
  by (auto simp: minute_less_def)

lemma token_of_expand:
  "token_of t = 100000000 * tm_year t + 1000000 * tm_mon t + 10000 * tm_mday t
     + 100 * tm_hour t + tm_min t - 9999000000"
  by (simp add: token_of_def algebra_simps)

lemma valid_tm_fields:
  assumes "valid_tm t"
  shows "0 \<le> tm_min t" "tm_min t < 60" "0 \<le> tm_hour t" "tm_hour t < 24"
    "0 \<le> tm_mon t" "tm_mon t < 12" "1 \<le> tm_mday t" "tm_mday t \<le> 31"
  using assms days_in_month_bounds [of "tm_year t" "tm_mon t"]
  by (simp_all add: valid_tm_def)

lemma token_of_mono:
  assumes "valid_tm a" "valid_tm b" "minute_less a b"
  shows "token_of a < token_of b"
  using assms(3) valid_tm_fields [OF assms(1)] valid_tm_fields [OF assms(2)]
  unfolding minute_less_def token_of_expand
  by (elim disjE conjE) linarith+

lemma token_of_same_minute:
  assumes "tm_year a = tm_year b" "tm_mon a = tm_mon b" "tm_mday a = tm_mday b"
    "tm_hour a = tm_hour b" "tm_min a = tm_min b"
  shows "token_of a = token_of b"
  using assms by (simp add: token_of_def)

lemma token_of_less_iff:
  assumes "valid_tm a" "valid_tm b"
  shows "(token_of a < token_of b) = minute_less a b"
proof
  assume "minute_less a b"
  with assms show "token_of a < token_of b" by (rule token_of_mono)
next
  assume l: "token_of a < token_of b"
  show "minute_less a b"
  proof (rule ccontr)
    assume n: "\<not> minute_less a b"
    from minute_trichotomy [of a b] n
    consider "minute_less b a"
      | "tm_year a = tm_year b \<and> tm_mon a = tm_mon b \<and> tm_mday a = tm_mday b \<and>
         tm_hour a = tm_hour b \<and> tm_min a = tm_min b"
      by blast
    then show False
    proof cases
      case 1
      with assms have "token_of b < token_of a" by (intro token_of_mono)
      with l show False by simp
    next
      case 2
      then have "token_of a = token_of b" by (intro token_of_same_minute) simp_all
      with l show False by simp
    qed
  qed
qed

lemma token_of_sign:
  assumes "valid_tm t"
  shows "(0 \<le> token_of t) = (100 \<le> tm_year t)"
  using valid_tm_fields [OF assms] unfolding token_of_expand by linarith

lemma token_of_bound:
  assumes "valid_tm t" "- (2 ^ 33) \<le> tm_year t" "tm_year t \<le> 2 ^ 33"
  shows "- (2 ^ 63) \<le> token_of t \<and> token_of t < 2 ^ 63"
  using valid_tm_fields [OF assms(1)] assms(2,3) unfolding token_of_expand by simp

lemma uint_token:
  assumes "- (2 ^ 63) \<le> v" "v < 2 ^ 63"
  shows "uint (word_of_int v :: u64) = (if 0 \<le> v then v else v + 2 ^ 64)"
proof (cases "0 \<le> v")
  case True
  with assms show ?thesis
    by (simp add: uint_word_of_int)
next
  case False
  have "v mod 2 ^ 64 = (v + 2 ^ 64) mod 2 ^ 64"
    by simp
  also have "\<dots> = v + 2 ^ 64"
    using assms False by (intro mod_pos_pos_trivial) simp_all
  finally show ?thesis
    using False by (simp add: uint_word_of_int)
qed

lemma word_token_less_iff:
  assumes "- (2 ^ 63) \<le> v" "v < 2 ^ 63" "- (2 ^ 63) \<le> w" "w < 2 ^ 63"
    and "(0 \<le> v) = (0 \<le> w)"
  shows "((word_of_int v :: u64) < word_of_int w) = (v < w)"
  using assms by (auto simp: word_less_def uint_token)

lemma same_century_sign:
  assumes "same_century a b"
  shows "(100 \<le> tm_year a) = (100 \<le> tm_year b)"
proof -
  have "(100 \<le> x) = (1 \<le> x div 100)" for x :: int
    by presburger
  with assms show ?thesis
    by (simp add: same_century_def)
qed

lemma word_token_order:
  assumes "valid_tm a" "valid_tm b"
    and "- (2 ^ 33) \<le> tm_year a" "tm_year a \<le> 2 ^ 33"
    and "- (2 ^ 33) \<le> tm_year b" "tm_year b \<le> 2 ^ 33"
    and "(100 \<le> tm_year a) = (100 \<le> tm_year b)"
  shows "((word_of_int (token_of a) :: u64) < word_of_int (token_of b)) = minute_less a b"
proof -
  have "((word_of_int (token_of a) :: u64) < word_of_int (token_of b)) = (token_of a < token_of b)"
    using token_of_bound [OF assms(1,3,4)] token_of_bound [OF assms(2,5,6)] assms(7)
    by (intro word_token_less_iff) (simp_all add: token_of_sign assms(1,2))
  then show ?thesis
    by (simp add: token_of_less_iff assms(1,2))
qed

text \<open>
  Rolling surplus days forward ends on a valid day of a valid month, not before the month
  it started in. So adding minutes to a valid time gives a valid time, later by at least a
  minute when at least a minute was added.
\<close>

lemma roll_days_forward_props:
  assumes "0 \<le> m" "m < 12" "1 \<le> d" "roll_days_forward y m d = (y', m', d')"
  shows "0 \<le> m' \<and> m' < 12 \<and> 1 \<le> d' \<and> d' \<le> days_in_month y' m' \<and>
     y \<le> y' \<and> y' \<le> y + d \<and>
     ((y', m', d') = (y, m, d) \<or> y < y' \<or> (y = y' \<and> m < m'))"
  using assms
proof (induction y m d rule: roll_days_forward.induct)
  case (1 y m d)
  note b = days_in_month_bounds [of y m]
  show ?case
  proof (cases "d > days_in_month y m")
    case False
    then have "roll_days_forward y m d = (y, m, d)"
      by (simp add: roll_days_forward_id)
    with "1.prems" False show ?thesis
      by simp
  next
    case over: True
    show ?thesis
    proof (cases "m + 1 = 12")
      case True
      with over "1.prems"(4) have r: "roll_days_forward (y + 1) 0 (d - days_in_month y m) = (y', m', d')"
        by (subst (asm) roll_days_forward.simps) simp
      have "0 \<le> m' \<and> m' < 12 \<and> 1 \<le> d' \<and> d' \<le> days_in_month y' m' \<and>
          y + 1 \<le> y' \<and> y' \<le> y + 1 + (d - days_in_month y m) \<and>
          ((y', m', d') = (y + 1, 0, d - days_in_month y m) \<or> y + 1 < y' \<or> (y + 1 = y' \<and> 0 < m'))"
        using over by (intro "1.IH"(1) [OF over True _ _ _ r]) simp_all
      with b show ?thesis
        by auto
    next
      case False
      with over "1.prems"(4) have r: "roll_days_forward y (m + 1) (d - days_in_month y m) = (y', m', d')"
        by (subst (asm) roll_days_forward.simps) simp
      have "0 \<le> m' \<and> m' < 12 \<and> 1 \<le> d' \<and> d' \<le> days_in_month y' m' \<and>
          y \<le> y' \<and> y' \<le> y + (d - days_in_month y m) \<and>
          ((y', m', d') = (y, m + 1, d - days_in_month y m) \<or> y < y' \<or> (y = y' \<and> m + 1 < m'))"
        using over False "1.prems"(1,2) by (intro "1.IH"(2) [OF over False _ _ _ r]) simp_all
      with b show ?thesis
        by auto
    qed
  qed
qed

lemma add_minutes_props:
  assumes v: "valid_tm t"
  shows "valid_tm (add_minutes t k) \<and> tm_sec (add_minutes t k) = 0 \<and>
     tm_year t \<le> tm_year (add_minutes t k) \<and>
     tm_year (add_minutes t k) \<le> tm_year t + 113 + int k \<and>
     (0 < k \<longrightarrow> minute_less t (add_minutes t k))"
proof -
  note f = valid_tm_fields [OF v]
  define min0 where "min0 = tm_min t + int k"
  define hour0 where "hour0 = tm_hour t + min0 div 60"
  define mday0 where "mday0 = tm_mday t + hour0 div 24"
  obtain y' m' d' where r: "roll_days_forward (tm_year t) (tm_mon t) mday0 = (y', m', d')"
    by (cases "roll_days_forward (tm_year t) (tm_mon t) mday0")
  have m0: "0 \<le> min0"
    using f by (simp add: min0_def)
  have q1: "min0 = 60 * (min0 div 60) + min0 mod 60" "0 \<le> min0 mod 60" "min0 mod 60 < 60"
    "0 \<le> min0 div 60"
    using m0 by (simp_all add: pos_imp_zdiv_nonneg_iff)
  have h0: "0 \<le> hour0"
    using f q1 by (simp add: hour0_def)
  have q2: "hour0 = 24 * (hour0 div 24) + hour0 mod 24" "0 \<le> hour0 mod 24" "hour0 mod 24 < 24"
    "0 \<le> hour0 div 24"
    using h0 by (simp_all add: pos_imp_zdiv_nonneg_iff)
  have d0: "1 \<le> mday0"
    using f q2 by (simp add: mday0_def)
  have a: "add_minutes t k =
      \<lparr>tm_sec = 0, tm_min = min0 mod 60, tm_hour = hour0 mod 24,
       tm_mday = d', tm_mon = m', tm_year = y'\<rparr>"
    using f d0 r
    by (simp add: add_minutes_def mktime_def Let_def min0_def [symmetric] hour0_def [symmetric]
        mday0_def [symmetric])
  note p = roll_days_forward_props [OF f(5) f(6) d0 r]
  have "valid_tm (add_minutes t k)"
    using p q1 q2 by (simp add: a valid_tm_def)
  moreover have "tm_year t \<le> tm_year (add_minutes t k)"
    using p by (simp add: a)
  moreover have "tm_year (add_minutes t k) \<le> tm_year t + 113 + int k"
  proof -
    have "mday0 \<le> 113 + int k"
      using f q1 q2 unfolding mday0_def hour0_def min0_def by linarith
    with p show ?thesis by (simp add: a)
  qed
  moreover have "minute_less t (add_minutes t k)" if k: "0 < k"
  proof -
    from p consider "y' = tm_year t \<and> m' = tm_mon t \<and> d' = mday0"
      | "tm_year t < y'" | "tm_year t = y' \<and> tm_mon t < m'"
      by auto
    then show ?thesis
    proof cases
      case 1
      have "tm_mday t < mday0 \<or>
          (tm_mday t = mday0 \<and> (tm_hour t < hour0 mod 24 \<or>
            (tm_hour t = hour0 mod 24 \<and> tm_min t < min0 mod 60)))"
        using f q1 q2 k unfolding mday0_def hour0_def min0_def by linarith
      with 1 show ?thesis
        by (auto simp: minute_less_def a)
    next
      case 2
      then show ?thesis by (simp add: minute_less_def a)
    next
      case 3
      then show ?thesis by (simp add: minute_less_def a)
    qed
  qed
  ultimately show ?thesis
    by (simp add: a)
qed

lemma token_of_sec: "token_of (t\<lparr>tm_sec := s\<rparr>) = token_of t"
  by (simp add: token_of_def)

lemma valid_tm_sec: "valid_tm t \<Longrightarrow> valid_tm (t\<lparr>tm_sec := 0\<rparr>)"
  by (simp add: valid_tm_def)

lemma assembleTargetTime_valid:
  "valid_tm t \<Longrightarrow> assembleTargetTime t 0 = word_of_int (token_of t)"
  by (simp add: assembleTargetTime_now token_of_sec)

lemma token_order_now:
  assumes "valid_tm a" "valid_tm b"
    and "- (2 ^ 33) \<le> tm_year a" "tm_year a \<le> 2 ^ 33"
    and "- (2 ^ 33) \<le> tm_year b" "tm_year b \<le> 2 ^ 33"
    and "same_century a b"
  shows "(assembleTargetTime a 0 < assembleTargetTime b 0) = minute_less a b"
  unfolding assembleTargetTime_valid [OF assms(1)] assembleTargetTime_valid [OF assms(2)]
  using assms(1-6) same_century_sign [OF assms(7)] by (rule word_token_order)

lemma last_minutes_of_day:
  assumes "valid_tm t" "tm_hour t = 23" "tm_min t = 55"
  shows "add_minutes t 10 = (next_day t)\<lparr>tm_sec := 0, tm_hour := 0, tm_min := 5\<rparr>"
proof -
  note f = valid_tm_fields [OF assms(1)]
  note b = days_in_month_bounds
  have d: "tm_mday t \<le> days_in_month (tm_year t) (tm_mon t)"
    using assms(1) by (simp add: valid_tm_def)
  have r: "roll_days_forward (tm_year t) (tm_mon t) (tm_mday t + 1) =
      (tm_year (next_day t), tm_mon (next_day t), tm_mday (next_day t))"
  proof (cases "tm_mday t < days_in_month (tm_year t) (tm_mon t)")
    case True
    then show ?thesis
      by (simp add: next_day_def roll_days_forward_id)
  next
    case False
    with d have e: "tm_mday t = days_in_month (tm_year t) (tm_mon t)"
      by simp
    show ?thesis
    proof (cases "tm_mon t < 11")
      case True
      have "roll_days_forward (tm_year t) (tm_mon t) (tm_mday t + 1) =
          roll_days_forward (tm_year t) (tm_mon t + 1) 1"
        using True e by (subst roll_days_forward.simps) simp
      also have "\<dots> = (tm_year t, tm_mon t + 1, 1)"
        using b [of "tm_year t" "tm_mon t + 1"] by (intro roll_days_forward_id) simp
      finally show ?thesis
        using True False by (simp add: next_day_def)
    next
      case last: False
      with f have m: "tm_mon t = 11"
        by simp
      have "roll_days_forward (tm_year t) (tm_mon t) (tm_mday t + 1) =
          roll_days_forward (tm_year t + 1) 0 1"
        using m e by (subst roll_days_forward.simps) simp
      also have "\<dots> = (tm_year t + 1, 0, 1)"
        using b [of "tm_year t + 1" 0] by (intro roll_days_forward_id) simp
      finally show ?thesis
        using last False by (simp add: next_day_def)
    qed
  qed
  show ?thesis
    using f assms(2,3) r
    by (cases t) (simp add: add_minutes_def mktime_def Let_def next_day_def)
qed

lemma c_int_range_wide: "c_int_range x \<Longrightarrow> - (2 ^ 33) \<le> x \<and> x \<le> 2 ^ 33"
  by (simp add: c_int_range_def)

lemma token_order_later:
  assumes v: "valid_tm t" and y: "c_int_range (tm_year t)"
    and k: "tm_min t + int k < 2 ^ 31"
  shows "assembleTargetTime t (of_nat k) = assembleTargetTime (add_minutes t k) 0 \<and>
     (same_century t (add_minutes t k) \<or> 100 \<le> tm_year t \<longrightarrow>
        (assembleTargetTime t 0 < assembleTargetTime t (of_nat k)) = minute_less t (add_minutes t k))"
proof -
  note f = valid_tm_fields [OF v]
  note p = add_minutes_props [OF v, of k]
  have a: "assembleTargetTime t (of_nat k) = word_of_int (token_of (add_minutes t k))"
    using f(1) k by (rule assembleTargetTime_add)
  have b: "assembleTargetTime (add_minutes t k) 0 = word_of_int (token_of (add_minutes t k))"
    using p by (simp add: assembleTargetTime_valid)
  have r: "- (2 ^ 33) \<le> tm_year (add_minutes t k) \<and> tm_year (add_minutes t k) \<le> 2 ^ 33"
    using p y k f(1) by (simp add: c_int_range_def)
  have "((word_of_int (token_of t) :: u64) < word_of_int (token_of (add_minutes t k))) =
      minute_less t (add_minutes t k)"
    if s: "same_century t (add_minutes t k) \<or> 100 \<le> tm_year t"
  proof -
    have "(100 \<le> tm_year t) = (100 \<le> tm_year (add_minutes t k))"
      using s p same_century_sign [of t "add_minutes t k"] by auto
    with v p c_int_range_wide [OF y] r show ?thesis
      by (intro word_token_order) simp_all
  qed
  then show ?thesis
    using a b by (simp add: assembleTargetTime_valid [OF v])
qed

text \<open>
  The bound on the minutes added is needed. \<^verbatim>\<open>outputTime.tm_min += minutesToAdd\<close> is taken in
  32 bits and read back as an \<^verbatim>\<open>int\<close>: 4294967295 minutes added to 12:07 are one minute
  taken away, and the token goes backwards.
\<close>

lemma minutes_added_wrap:
  "assembleTargetTime noon_07_20 4294967295 = 2201151206 \<and>
   assembleTargetTime noon_07_20 0 = 2201151207 \<and>
   assembleTargetTime noon_07_20 4294967295 < assembleTargetTime noon_07_20 0"
proof -
  have s: "sint (word_of_int (tm_min noon_07_20) + 4294967295 :: u32) = 6"
    by (simp add: noon_07_20_def)
  have v: "valid_tm (noon_07_20\<lparr>tm_sec := 0, tm_min := 6\<rparr>)"
    by (simp add: valid_tm_def noon_07_20_def days_in_month_def)
  have v0: "valid_tm noon_07_20"
    by (simp add: valid_tm_def noon_07_20_def days_in_month_def)
  have a: "assembleTargetTime noon_07_20 4294967295 = 2201151206"
    unfolding assembleTargetTime_token s mktime_valid [OF v, simplified]
    by (simp add: token_of_def noon_07_20_def)
  have b: "assembleTargetTime noon_07_20 0 = 2201151207"
    unfolding assembleTargetTime_valid [OF v0] by (simp add: token_of_def noon_07_20_def)
  show ?thesis
    unfolding a b by simp
qed

text \<open>
  The claim as stated orders the tokens of any two valid times \<open>t1 < t2\<close> strictly. Two
  times of the same minute, 12:07:20 and 12:07:45, get the same token.
\<close>

theorem token_order_counterexample:
  "valid_tm noon_07_20 \<and> valid_tm noon_07_45 \<and>
   c_int_range (tm_year noon_07_20) \<and> c_int_range (tm_year noon_07_45) \<and>
   same_century noon_07_20 noon_07_45 \<and> tm_less noon_07_20 noon_07_45 \<and>
   assembleTargetTime noon_07_20 0 = 2201151207 \<and>
   assembleTargetTime noon_07_45 0 = 2201151207 \<and>
   \<not> (assembleTargetTime noon_07_20 0 < assembleTargetTime noon_07_45 0)"
proof -
  have v1: "valid_tm noon_07_20"
    by (simp add: valid_tm_def noon_07_20_def days_in_month_def)
  have v2: "valid_tm noon_07_45"
    by (simp add: valid_tm_def noon_07_45_def days_in_month_def)
  have a1: "assembleTargetTime noon_07_20 0 = 2201151207"
    unfolding assembleTargetTime_valid [OF v1] by (simp add: token_of_def noon_07_20_def)
  have a2: "assembleTargetTime noon_07_45 0 = 2201151207"
    unfolding assembleTargetTime_valid [OF v2] by (simp add: token_of_def noon_07_45_def)
  show ?thesis
    using v1 v2 a1 a2
    by (simp add: c_int_range_def same_century_def tm_less_def minute_less_def
        noon_07_20_def noon_07_45_def)
qed

text \<open>
  Claim C4, as amended. Here \<^verbatim>\<open>mktime\<close> is the calendar normalisation of a time zone without
  daylight-saving changes (the definition \<open>mktime\<close> above), and the years are C \<^verbatim>\<open>int\<close>s.
  For valid calendar times \<open>t1\<close> and \<open>t2\<close> of the same century, the token of \<open>t1\<close> is less
  than the token of \<open>t2\<close> exactly when \<open>t1\<close> comes before \<open>t2\<close> at minute granularity; the
  seconds are dropped, so \<open>t1\<close> before \<open>t2\<close> gives a token that is less or equal, and two
  times of the same minute get the same token. Adding \<open>k > 0\<close> minutes, with the minute
  field plus \<open>k\<close> below \<open>2\<^sup>3\<^sup>1\<close> (the range of the C \<^verbatim>\<open>int\<close> the sum is read back as), packs the
  normalised calendar time \<open>k\<close> minutes later: all its fields are in range, it comes later
  at minute granularity, and its token is greater, for a time from the year 2000 on or a
  result in the same century. At 23:55, adding 10 minutes gives the token of 00:05 on the
  next day (of the next month or year at their ends), greater under the same condition on
  the century.
\<close>

theorem token_order:
  assumes "valid_tm t1" "valid_tm t2"
    and "c_int_range (tm_year t1)" "c_int_range (tm_year t2)"
    and "same_century t1 t2"
  shows "((assembleTargetTime t1 0 < assembleTargetTime t2 0) = minute_less t1 t2)
       \<and> (tm_less t1 t2 \<longrightarrow> assembleTargetTime t1 0 \<le> assembleTargetTime t2 0)
       \<and> (same_minute t1 t2 \<longrightarrow> assembleTargetTime t1 0 = assembleTargetTime t2 0)
       \<and> (0 < k \<and> tm_min t1 + int k < 2 ^ 31 \<longrightarrow>
            valid_tm (add_minutes t1 k) \<and> minute_less t1 (add_minutes t1 k) \<and>
            assembleTargetTime t1 (of_nat k) = assembleTargetTime (add_minutes t1 k) 0 \<and>
            (same_century t1 (add_minutes t1 k) \<or> 100 \<le> tm_year t1 \<longrightarrow>
               assembleTargetTime t1 0 < assembleTargetTime t1 (of_nat k)))
       \<and> (tm_hour t1 = 23 \<and> tm_min t1 = 55 \<longrightarrow>
            add_minutes t1 10 = (next_day t1)\<lparr>tm_sec := 0, tm_hour := 0, tm_min := 5\<rparr> \<and>
            assembleTargetTime t1 10 =
              assembleTargetTime ((next_day t1)\<lparr>tm_sec := 0, tm_hour := 0, tm_min := 5\<rparr>) 0 \<and>
            (same_century t1 (next_day t1) \<or> 100 \<le> tm_year t1 \<longrightarrow>
               assembleTargetTime t1 0 < assembleTargetTime t1 10))"
proof -
  note w1 = c_int_range_wide [OF assms(3)]
  note w2 = c_int_range_wide [OF assms(4)]
  have o: "(assembleTargetTime t1 0 < assembleTargetTime t2 0) = minute_less t1 t2"
    using assms(1,2) w1 w2 assms(5) by (intro token_order_now) simp_all
  have o': "(assembleTargetTime t2 0 < assembleTargetTime t1 0) = minute_less t2 t1"
    using assms(1,2) w1 w2 assms(5) by (intro token_order_now) (simp_all add: same_century_def)
  have le: "assembleTargetTime t1 0 \<le> assembleTargetTime t2 0" if "tm_less t1 t2"
  proof -
    from that have "\<not> minute_less t2 t1"
      by (auto simp: tm_less_def minute_less_def)
    with o' show ?thesis
      by simp
  qed
  have eq: "assembleTargetTime t1 0 = assembleTargetTime t2 0" if "same_minute t1 t2"
  proof -
    from that have "token_of t1 = token_of t2"
      unfolding same_minute_def by (intro token_of_same_minute) simp_all
    then show ?thesis
      by (simp add: assembleTargetTime_valid assms(1,2))
  qed
  have later: "valid_tm (add_minutes t1 k) \<and> minute_less t1 (add_minutes t1 k) \<and>
      assembleTargetTime t1 (of_nat k) = assembleTargetTime (add_minutes t1 k) 0 \<and>
      (same_century t1 (add_minutes t1 k) \<or> 100 \<le> tm_year t1 \<longrightarrow>
         assembleTargetTime t1 0 < assembleTargetTime t1 (of_nat k))"
    if "0 < k \<and> tm_min t1 + int k < 2 ^ 31" for k
    using that add_minutes_props [OF assms(1), of k] token_order_later [OF assms(1,3), of k]
    by auto
  have eve: "add_minutes t1 10 = (next_day t1)\<lparr>tm_sec := 0, tm_hour := 0, tm_min := 5\<rparr> \<and>
      assembleTargetTime t1 10 =
        assembleTargetTime ((next_day t1)\<lparr>tm_sec := 0, tm_hour := 0, tm_min := 5\<rparr>) 0 \<and>
      (same_century t1 (next_day t1) \<or> 100 \<le> tm_year t1 \<longrightarrow>
         assembleTargetTime t1 0 < assembleTargetTime t1 10)"
    if h: "tm_hour t1 = 23 \<and> tm_min t1 = 55"
  proof -
    have e: "add_minutes t1 10 = (next_day t1)\<lparr>tm_sec := 0, tm_hour := 0, tm_min := 5\<rparr>"
      using assms(1) h by (intro last_minutes_of_day) simp_all
    have c: "same_century t1 (add_minutes t1 10) = same_century t1 (next_day t1)"
      by (simp add: e same_century_def)
    from h have "0 < (10 :: nat) \<and> tm_min t1 + int 10 < 2 ^ 31"
      by simp
    from later [OF this] e c show ?thesis
      by auto
  qed
  from o le eq later [of k] eve show ?thesis
    by blast
qed

theorem token_order_witness:
  "valid_tm noon_07_20 \<and> valid_tm noon_07_45 \<and> valid_tm month_end_23_55 \<and>
   c_int_range (tm_year noon_07_20) \<and> c_int_range (tm_year noon_07_45) \<and>
   c_int_range (tm_year month_end_23_55) \<and>
   same_century noon_07_20 month_end_23_55 \<and> same_century noon_07_20 noon_07_45 \<and>
   minute_less noon_07_20 month_end_23_55 \<and>
   assembleTargetTime noon_07_20 0 < assembleTargetTime month_end_23_55 0 \<and>
   tm_less noon_07_20 noon_07_45 \<and> same_minute noon_07_20 noon_07_45 \<and>
   assembleTargetTime noon_07_20 0 \<le> assembleTargetTime noon_07_45 0 \<and>
   assembleTargetTime noon_07_20 0 = assembleTargetTime noon_07_45 0 \<and>
   valid_tm (add_minutes noon_07_20 10) \<and> minute_less noon_07_20 (add_minutes noon_07_20 10) \<and>
   assembleTargetTime noon_07_20 0 < assembleTargetTime noon_07_20 10 \<and>
   add_minutes month_end_23_55 10 =
     \<lparr>tm_sec = 0, tm_min = 5, tm_hour = 0, tm_mday = 1, tm_mon = 1, tm_year = 122\<rparr> \<and>
   assembleTargetTime month_end_23_55 10 =
     assembleTargetTime
       \<lparr>tm_sec = 0, tm_min = 5, tm_hour = 0, tm_mday = 1, tm_mon = 1, tm_year = 122\<rparr> 0 \<and>
   assembleTargetTime month_end_23_55 0 < assembleTargetTime month_end_23_55 10"
proof -
  have v1: "valid_tm noon_07_20"
    by (simp add: valid_tm_def noon_07_20_def days_in_month_def)
  have v2: "valid_tm month_end_23_55"
    by (simp add: valid_tm_def month_end_23_55_def days_in_month_def)
  have v3: "valid_tm noon_07_45"
    by (simp add: valid_tm_def noon_07_45_def days_in_month_def)
  have r1: "c_int_range (tm_year noon_07_20)"
    by (simp add: c_int_range_def noon_07_20_def)
  have r2: "c_int_range (tm_year month_end_23_55)"
    by (simp add: c_int_range_def month_end_23_55_def)
  have r3: "c_int_range (tm_year noon_07_45)"
    by (simp add: c_int_range_def noon_07_45_def)
  have c: "same_century month_end_23_55 noon_07_20" "same_century noon_07_20 month_end_23_55"
    "same_century noon_07_20 noon_07_45"
    by (simp_all add: same_century_def noon_07_20_def noon_07_45_def month_end_23_55_def)
  have m: "minute_less noon_07_20 month_end_23_55"
    by (simp add: minute_less_def noon_07_20_def month_end_23_55_def)
  have l: "tm_less noon_07_20 noon_07_45"
    by (simp add: tm_less_def noon_07_20_def noon_07_45_def)
  have s: "same_minute noon_07_20 noon_07_45"
    by (simp add: same_minute_def noon_07_20_def noon_07_45_def)
  have k: "0 < (10 :: nat) \<and> tm_min noon_07_20 + int 10 < 2 ^ 31"
    by (simp add: noon_07_20_def)
  have y: "same_century noon_07_20 (add_minutes noon_07_20 10) \<or> 100 \<le> tm_year noon_07_20"
    by (simp add: noon_07_20_def)
  have n: "(next_day month_end_23_55)\<lparr>tm_sec := 0, tm_hour := 0, tm_min := 5\<rparr> =
      \<lparr>tm_sec = 0, tm_min = 5, tm_hour = 0, tm_mday = 1, tm_mon = 1, tm_year = 122\<rparr>"
    by (simp add: next_day_def month_end_23_55_def days_in_month_def)
  have h: "tm_hour month_end_23_55 = 23 \<and> tm_min month_end_23_55 = 55"
    by (simp add: month_end_23_55_def)
  have cn: "same_century month_end_23_55 (next_day month_end_23_55)"
    by (simp add: same_century_def next_day_def month_end_23_55_def days_in_month_def)
  note a = token_order [OF v1 v2 r1 r2 c(2), of 10]
  note b = token_order [OF v1 v3 r1 r3 c(3), of 10]
  note d = token_order [OF v2 v1 r2 r1 c(1), of 10]
  have o: "assembleTargetTime noon_07_20 0 < assembleTargetTime month_end_23_55 0"
    using conjunct1 [OF a] m by simp
  have le: "assembleTargetTime noon_07_20 0 \<le> assembleTargetTime noon_07_45 0"
    using conjunct1 [OF conjunct2 [OF b]] l by blast
  have eq: "assembleTargetTime noon_07_20 0 = assembleTargetTime noon_07_45 0"
    using conjunct1 [OF conjunct2 [OF conjunct2 [OF b]]] s by blast
  have "valid_tm (add_minutes noon_07_20 10) \<and>
      minute_less noon_07_20 (add_minutes noon_07_20 10) \<and>
      assembleTargetTime noon_07_20 0 < assembleTargetTime noon_07_20 (of_nat 10)"
    using conjunct1 [OF conjunct2 [OF conjunct2 [OF conjunct2 [OF a]]]] k y by blast
  then have later: "valid_tm (add_minutes noon_07_20 10) \<and>
      minute_less noon_07_20 (add_minutes noon_07_20 10) \<and>
      assembleTargetTime noon_07_20 0 < assembleTargetTime noon_07_20 10"
    by simp
  have e: "add_minutes month_end_23_55 10 =
        \<lparr>tm_sec = 0, tm_min = 5, tm_hour = 0, tm_mday = 1, tm_mon = 1, tm_year = 122\<rparr> \<and>
      assembleTargetTime month_end_23_55 10 =
        assembleTargetTime
          \<lparr>tm_sec = 0, tm_min = 5, tm_hour = 0, tm_mday = 1, tm_mon = 1, tm_year = 122\<rparr> 0 \<and>
      assembleTargetTime month_end_23_55 0 < assembleTargetTime month_end_23_55 10"
    using conjunct2 [OF conjunct2 [OF conjunct2 [OF conjunct2 [OF d]]]] h cn
    unfolding n by blast
  show ?thesis
    using v1 v2 v3 r1 r2 r3 c(2,3) m o l s le eq later e by blast
qed


section \<open>The scheduler\<close>

subsection \<open>Sleeping and reconnecting\<close>

text \<open>
  For a valid local time the 64-bit arithmetic of the sleeping state computes the seconds
  to the next slot, between 0 and 600, and the microseconds fit.
\<close>

lemma seconds_to_next_slot_range:
  assumes "0 \<le> tm_min t" "tm_min t < 60" "0 \<le> tm_sec t" "tm_sec t \<le> 60"
  shows "0 \<le> seconds_to_next_slot t \<and> seconds_to_next_slot t \<le> 600"
proof -
  have "0 \<le> tm_min t mod 10" "tm_min t mod 10 < 10"
    by simp_all
  with assms show ?thesis
    unfolding seconds_to_next_slot_def sleepTimeMinutes_def by auto
qed

lemma secondsToWait_code:
  assumes "0 \<le> tm_min t" "tm_min t < 60" "0 \<le> tm_sec t" "tm_sec t \<le> 60"
  shows "(word_of_int (sleepTimeMinutes - tm_min t smod sleepTimeMinutes) :: u64) * 60
           - word_of_int (tm_sec t) = word_of_int (seconds_to_next_slot t)"
proof -
  have "tm_min t smod sleepTimeMinutes = tm_min t mod sleepTimeMinutes"
    using assms(1) by (simp add: smod_mod_positive sleepTimeMinutes_def)
  then show ?thesis
    by (simp add: seconds_to_next_slot_def)
qed

lemma uint_small: "0 \<le> s \<Longrightarrow> s \<le> 600000000 \<Longrightarrow> uint (word_of_int s :: u64) = s"
  by (simp add: uint_word_of_int)

lemma threshold_code:
  assumes "0 \<le> s" "s \<le> 600"
  shows "((30 :: u64) \<le> word_of_int s) = (30 \<le> s)"
  using assms uint_small [of s] by (simp add: word_le_def)

lemma sint_succ: "sint (x :: u32) < 40 \<Longrightarrow> sint (x + 1) = sint x + 1"
proof -
  assume a: "sint x < 40"
  have lo: "- (2 ^ 31) \<le> sint x"
    using sint_ge [of x] by simp
  have "sint (x + 1) = signed_take_bit 31 (sint x + 1)"
    by (simp add: sint_word_ariths)
  also have "\<dots> = sint x + 1"
    using a lo by (intro signed_take_bit_int_eq_self) simp_all
  finally show ?thesis .
qed

text \<open>
  Claim C5. One step from \<open>SLEEP_UNTIL_TIME_SLOT\<close> with a valid local time. When fewer than
  30 seconds remain to the next boundary of the sampling interval, the next state is
  \<open>AWAIT_TIME_SLOT\<close> and the only call made is the one that read the clock: no sleep is
  requested. When at least 30 seconds remain, WiFi is disconnected, the timed light sleep is
  requested for exactly the remaining seconds (in microseconds, without overflow),
  \<open>lightSlept\<close> is set, \<open>wifiReinitAttempts\<close> is reset and the next state is
  \<open>REINIT_WIFI_CONNECTION\<close>.
\<close>

theorem sleeping_step:
  assumes "samplingState g = SLEEP_UNTIL_TIME_SLOT"
    and "reply_getLocalTime E tr = (True, timeinfo)"
    and "0 \<le> tm_min timeinfo" "tm_min timeinfo < 60"
    and "0 \<le> tm_sec timeinfo" "tm_sec timeinfo \<le> 60"
  shows "(seconds_to_next_slot timeinfo < 30 \<longrightarrow>
            samplingState (fst (loop E (g, tr))) = AWAIT_TIME_SLOT \<and>
            snd (loop E (g, tr)) = tr @ [Ev_getLocalTime True timeinfo])
       \<and> (30 \<le> seconds_to_next_slot timeinfo \<longrightarrow>
            samplingState (fst (loop E (g, tr))) = REINIT_WIFI_CONNECTION \<and>
            lightSlept (fst (loop E (g, tr))) = True \<and>
            wifiReinitAttempts (fst (loop E (g, tr))) = 0 \<and>
            snd (loop E (g, tr)) =
              tr @ [Ev_getLocalTime True timeinfo, Ev_disconnectWifi, Ev_delay 1000,
                    Ev_esp_sleep_enable_timer_wakeup
                      (word_of_int (seconds_to_next_slot timeinfo * 1000000)),
                    Ev_esp_light_sleep_start] \<and>
            uint (word_of_int (seconds_to_next_slot timeinfo * 1000000) :: u64) =
              seconds_to_next_slot timeinfo * 1000000)"
proof -
  have r: "0 \<le> seconds_to_next_slot timeinfo \<and> seconds_to_next_slot timeinfo \<le> 600"
    using assms(3-6) by (rule seconds_to_next_slot_range)
  have c: "(word_of_int (sleepTimeMinutes - tm_min timeinfo smod sleepTimeMinutes) :: u64) * 60
      - word_of_int (tm_sec timeinfo) = word_of_int (seconds_to_next_slot timeinfo)"
    using assms(3-6) by (rule secondsToWait_code)
  have t: "((30 :: u64) \<le> word_of_int (seconds_to_next_slot timeinfo)) = (30 \<le> seconds_to_next_slot timeinfo)"
    using r by (simp add: threshold_code)
  have u: "uint (word_of_int (seconds_to_next_slot timeinfo * 1000000) :: u64) =
      seconds_to_next_slot timeinfo * 1000000"
    using r by (intro uint_small) simp_all
  show ?thesis
    using assms(1,2) u
    by (simp add: loop_def getLocalTime_def Let_def c t disconnectWifi_def delay_def
        esp_sleep_enable_timer_wakeup_def esp_light_sleep_start_def del: of_int_diff)
qed

theorem sleeping_step_witness:
  "seconds_to_next_slot noon_09_45 = 15 \<and>
   samplingState (fst (loop (clock_env 1642248585 noon_09_45) (sleeping_globals, []))) = AWAIT_TIME_SLOT \<and>
   snd (loop (clock_env 1642248585 noon_09_45) (sleeping_globals, [])) = [Ev_getLocalTime True noon_09_45] \<and>
   seconds_to_next_slot noon_07_20 = 160 \<and>
   samplingState (fst (loop (clock_env 1642248440 noon_07_20) (sleeping_globals, []))) = REINIT_WIFI_CONNECTION \<and>
   lightSlept (fst (loop (clock_env 1642248440 noon_07_20) (sleeping_globals, []))) = True \<and>
   wifiReinitAttempts (fst (loop (clock_env 1642248440 noon_07_20) (sleeping_globals, []))) = 0 \<and>
   snd (loop (clock_env 1642248440 noon_07_20) (sleeping_globals, [])) =
     [Ev_getLocalTime True noon_07_20, Ev_disconnectWifi, Ev_delay 1000,
      Ev_esp_sleep_enable_timer_wakeup 160000000, Ev_esp_light_sleep_start]"
proof -
  have s: "samplingState sleeping_globals = SLEEP_UNTIL_TIME_SLOT"
    by (simp add: sleeping_globals_def)
  have a: "seconds_to_next_slot noon_09_45 = 15"
    by (simp add: seconds_to_next_slot_def noon_09_45_def sleepTimeMinutes_def)
  have b: "seconds_to_next_slot noon_07_20 = 160"
    by (simp add: seconds_to_next_slot_def noon_07_20_def sleepTimeMinutes_def)
  have r1: "reply_getLocalTime (clock_env 1642248585 noon_09_45) [] = (True, noon_09_45)"
    by (simp add: clock_env_def)
  have r2: "reply_getLocalTime (clock_env 1642248440 noon_07_20) [] = (True, noon_07_20)"
    by (simp add: clock_env_def)
  have "samplingState (fst (loop (clock_env 1642248585 noon_09_45) (sleeping_globals, []))) = AWAIT_TIME_SLOT \<and>
      snd (loop (clock_env 1642248585 noon_09_45) (sleeping_globals, [])) = [Ev_getLocalTime True noon_09_45]"
    using sleeping_step [OF s r1] a by (simp add: noon_09_45_def)
  moreover have "samplingState (fst (loop (clock_env 1642248440 noon_07_20) (sleeping_globals, []))) = REINIT_WIFI_CONNECTION \<and>
      lightSlept (fst (loop (clock_env 1642248440 noon_07_20) (sleeping_globals, []))) = True \<and>
      wifiReinitAttempts (fst (loop (clock_env 1642248440 noon_07_20) (sleeping_globals, []))) = 0 \<and>
      snd (loop (clock_env 1642248440 noon_07_20) (sleeping_globals, [])) =
        [Ev_getLocalTime True noon_07_20, Ev_disconnectWifi, Ev_delay 1000,
         Ev_esp_sleep_enable_timer_wakeup 160000000, Ev_esp_light_sleep_start]"
    using sleeping_step [OF s r2] b by (simp add: noon_07_20_def)
  ultimately show ?thesis
    using a b by simp
qed

text \<open>
  Claim C6. One step from \<open>REINIT_WIFI_CONNECTION\<close> with WiFi not connected. With the retry
  counter at its cap of 40, the next state is \<open>AWAIT_TIME_SLOT\<close> when the epoch time has
  reached the threshold of 21 days (the clock was synced once), and
  \<open>SLEEP_UNTIL_TIME_SLOT\<close> when it has not. While the counter is below 40, the step changes
  nothing but the counter, which grows by one.
\<close>

theorem reinit_wifi_down:
  assumes "samplingState g = REINIT_WIFI_CONNECTION"
    and "reply_handleWifiConnection E tr = False"
  shows "(wifiReinitAttempts g = 40 \<and>
            time_synced_threshold \<le> reply_getTime E (tr @ [Ev_handleWifiConnection False]) \<longrightarrow>
            samplingState (fst (loop E (g, tr))) = AWAIT_TIME_SLOT)
       \<and> (wifiReinitAttempts g = 40 \<and>
            reply_getTime E (tr @ [Ev_handleWifiConnection False]) < time_synced_threshold \<longrightarrow>
            samplingState (fst (loop E (g, tr))) = SLEEP_UNTIL_TIME_SLOT)
       \<and> (sint (wifiReinitAttempts g) < 40 \<longrightarrow>
            fst (loop E (g, tr)) = g\<lparr>wifiReinitAttempts := wifiReinitAttempts g + 1\<rparr> \<and>
            samplingState (fst (loop E (g, tr))) = REINIT_WIFI_CONNECTION \<and>
            sint (wifiReinitAttempts (fst (loop E (g, tr)))) = sint (wifiReinitAttempts g) + 1)"
  using assms
  by (auto simp: loop_def handleWifiConnection_def getTime_def Let_def sint_succ)

theorem reinit_wifi_down_witness:
  "samplingState (fst (loop (clock_env 1642248440 noon_07_20) (reinit_globals 40, []))) = AWAIT_TIME_SLOT \<and>
   samplingState (fst (loop (clock_env 5 noon_07_20) (reinit_globals 40, []))) = SLEEP_UNTIL_TIME_SLOT \<and>
   samplingState (fst (loop (clock_env 5 noon_07_20) (reinit_globals 39, []))) = REINIT_WIFI_CONNECTION \<and>
   wifiReinitAttempts (fst (loop (clock_env 5 noon_07_20) (reinit_globals 39, []))) = 40"
proof -
  have s: "samplingState (reinit_globals n) = REINIT_WIFI_CONNECTION" for n
    by (simp add: reinit_globals_def)
  have w: "reply_handleWifiConnection (clock_env e t) [] = False" for e t
    by (simp add: clock_env_def quiet_env_def)
  show ?thesis
    using reinit_wifi_down [OF s w, of 40 1642248440 noon_07_20]
      reinit_wifi_down [OF s w, of 40 5 noon_07_20]
      reinit_wifi_down [OF s w, of 39 5 noon_07_20]
    by (simp add: reinit_globals_def clock_env_def time_synced_threshold_def)
qed

subsection \<open>Capturing\<close>

text \<open>
  \<^verbatim>\<open>capture\<close> returns true exactly when the frame it receives decodes.
\<close>

lemma corrupt_payload_decode:
  "decodeBresser5In1Payload corrupt_payload 26 pOut = (DECODE_PAR_ERR, pOut, [Parity_wrong_at 3])"
proof -
  have "parity_loop corrupt_payload 26 0 = Some 3"
    using corrupt_payload_parity by (intro parity_loop_Some) simp_all
  then show ?thesis
    by (simp add: decodeBresser5In1Payload_def)
qed

lemma example_payload_decode:
  "fst (decodeBresser5In1Payload example_payload 26 pOut) = DECODE_OK"
proof -
  have p: "parity_loop example_payload 26 0 = None"
    using example_payload_parity by (rule parity_loop_26_None)
  have c: "checksum_loop example_payload 26 14 0 = example_payload ! 13"
    by (simp add: checksum_eq_iff example_payload_popcount)
  show ?thesis
    by (simp add: decodeBresser5In1Payload_def p c Let_def)
qed

lemma capture_returns: "fst (capture E tr) = frame_decodes E tr"
  by (auto simp: capture_def frame_decodes_def radio_receive_def Let_def
      split: prod.splits if_splits)

lemma frame_fails_not_decodes: "frame_fails E tr \<Longrightarrow> \<not> frame_decodes E tr"
  by (auto simp: frame_fails_def frame_decodes_def split: prod.splits)

lemma capturing_step:
  assumes "samplingState g = CAPTURE_WEATHER_DATA"
  shows "samplingState (fst (loop E (g, tr))) =
     (if frame_decodes E tr then SEND_WEATHER_DATA else CAPTURE_WEATHER_DATA)"
  using assms capture_returns [of E tr]
  by (auto simp: loop_def split: prod.splits)

lemma capturing_run:
  assumes "samplingState g = CAPTURE_WEATHER_DATA"
    and "\<forall>k<n. \<not> frame_decodes E (snd ((loop E ^^ k) (g, tr)))"
  shows "k \<le> n \<Longrightarrow> samplingState (fst ((loop E ^^ k) (g, tr))) = CAPTURE_WEATHER_DATA"
proof (induction k)
  case 0
  then show ?case using assms(1) by simp
next
  case (Suc k)
  then have c: "samplingState (fst ((loop E ^^ k) (g, tr))) = CAPTURE_WEATHER_DATA"
    by simp
  from Suc.prems assms(2) have f: "\<not> frame_decodes E (snd ((loop E ^^ k) (g, tr)))"
    by simp
  obtain gk trk where r: "(loop E ^^ k) (g, tr) = (gk, trk)"
    by (cases "(loop E ^^ k) (g, tr)")
  from capturing_step [of gk E trk] c f r show ?case
    by simp
qed

lemma flaky_run_1:
  "loop flaky_radio_env (capturing_globals, []) =
     (capturing_globals, [Ev_radio_receive RADIOLIB_ERR_RX_TIMEOUT (replicate 27 0)])"
  by (simp add: loop_def capture_def radio_receive_def flaky_radio_env_def
      capturing_globals_def initial_globals_def quiet_env_def)

lemma flaky_run_2:
  "loop flaky_radio_env (capturing_globals, [Ev_radio_receive RADIOLIB_ERR_RX_TIMEOUT (replicate 27 0)]) =
     (capturing_globals,
      [Ev_radio_receive RADIOLIB_ERR_RX_TIMEOUT (replicate 27 0),
       Ev_radio_receive RADIOLIB_ERR_NONE (0xD4 # corrupt_payload),
       Ev_Serial_printf (Parity_wrong_at 3)])"
  by (simp add: loop_def capture_def radio_receive_def flaky_radio_env_def
      capturing_globals_def initial_globals_def quiet_env_def corrupt_payload_decode
      Serial_printf_def)

text \<open>
  Claim C7. A step from \<open>CAPTURE_WEATHER_DATA\<close> whose capture attempt ends in a parity error,
  a checksum error or a radio timeout leaves the state \<open>CAPTURE_WEATHER_DATA\<close>; a step whose
  frame decodes moves to \<open>SEND_WEATHER_DATA\<close>. So from any state of the scheduler that is
  capturing, after any number \<open>n\<close> of failed attempts the state is still
  \<open>CAPTURE_WEATHER_DATA\<close>, and the first attempt that decodes moves to \<open>SEND_WEATHER_DATA\<close>.
\<close>

theorem capturing_until_decoded:
  assumes "samplingState g = CAPTURE_WEATHER_DATA"
  shows "(frame_fails E tr \<longrightarrow> samplingState (fst (loop E (g, tr))) = CAPTURE_WEATHER_DATA)
       \<and> (frame_decodes E tr \<longrightarrow> samplingState (fst (loop E (g, tr))) = SEND_WEATHER_DATA)
       \<and> ((\<forall>k<n. frame_fails E (snd ((loop E ^^ k) (g, tr)))) \<and>
            frame_decodes E (snd ((loop E ^^ n) (g, tr))) \<longrightarrow>
            (\<forall>k\<le>n. samplingState (fst ((loop E ^^ k) (g, tr))) = CAPTURE_WEATHER_DATA) \<and>
            samplingState (fst ((loop E ^^ Suc n) (g, tr))) = SEND_WEATHER_DATA)"
proof (intro conjI impI)
  assume "frame_fails E tr"
  then show "samplingState (fst (loop E (g, tr))) = CAPTURE_WEATHER_DATA"
    using capturing_step [OF assms, of E tr] by (simp add: frame_fails_not_decodes)
next
  assume "frame_decodes E tr"
  then show "samplingState (fst (loop E (g, tr))) = SEND_WEATHER_DATA"
    using capturing_step [OF assms, of E tr] by simp
next
  assume a: "(\<forall>k<n. frame_fails E (snd ((loop E ^^ k) (g, tr)))) \<and>
     frame_decodes E (snd ((loop E ^^ n) (g, tr)))"
  then have f: "\<forall>k<n. \<not> frame_decodes E (snd ((loop E ^^ k) (g, tr)))"
    by (simp add: frame_fails_not_decodes)
  show "\<forall>k\<le>n. samplingState (fst ((loop E ^^ k) (g, tr))) = CAPTURE_WEATHER_DATA"
    using capturing_run [OF assms f] by simp
next
  assume a: "(\<forall>k<n. frame_fails E (snd ((loop E ^^ k) (g, tr)))) \<and>
     frame_decodes E (snd ((loop E ^^ n) (g, tr)))"
  then have f: "\<forall>k<n. \<not> frame_decodes E (snd ((loop E ^^ k) (g, tr)))"
    by (simp add: frame_fails_not_decodes)
  have c: "samplingState (fst ((loop E ^^ n) (g, tr))) = CAPTURE_WEATHER_DATA"
    using capturing_run [OF assms f, of n] by simp
  obtain gn trn where r: "(loop E ^^ n) (g, tr) = (gn, trn)"
    by (cases "(loop E ^^ n) (g, tr)")
  from capturing_step [of gn E trn] c a r
  show "samplingState (fst ((loop E ^^ Suc n) (g, tr))) = SEND_WEATHER_DATA"
    by simp
qed

theorem capturing_until_decoded_witness:
  "samplingState capturing_globals = CAPTURE_WEATHER_DATA \<and>
   frame_fails flaky_radio_env [] \<and>
   samplingState (fst (loop flaky_radio_env (capturing_globals, []))) = CAPTURE_WEATHER_DATA \<and>
   frame_fails flaky_radio_env (snd (loop flaky_radio_env (capturing_globals, []))) \<and>
   samplingState (fst (loop flaky_radio_env (loop flaky_radio_env (capturing_globals, [])))) =
     CAPTURE_WEATHER_DATA \<and>
   frame_decodes flaky_radio_env
     (snd (loop flaky_radio_env (loop flaky_radio_env (capturing_globals, [])))) \<and>
   samplingState
     (fst (loop flaky_radio_env
       (loop flaky_radio_env (loop flaky_radio_env (capturing_globals, []))))) =
     SEND_WEATHER_DATA"
proof -
  have c: "samplingState capturing_globals = CAPTURE_WEATHER_DATA"
    by (simp add: capturing_globals_def)
  have f0: "frame_fails flaky_radio_env []"
    by (simp add: frame_fails_def flaky_radio_env_def)
  have f1: "frame_fails flaky_radio_env [Ev_radio_receive RADIOLIB_ERR_RX_TIMEOUT (replicate 27 0)]"
    by (simp add: frame_fails_def flaky_radio_env_def corrupt_payload_decode)
  have d2: "frame_decodes flaky_radio_env
      [Ev_radio_receive RADIOLIB_ERR_RX_TIMEOUT (replicate 27 0),
       Ev_radio_receive RADIOLIB_ERR_NONE (0xD4 # corrupt_payload),
       Ev_Serial_printf (Parity_wrong_at 3)]"
    by (simp add: frame_decodes_def flaky_radio_env_def example_payload_decode)
  have n: "(2 :: nat) = Suc (Suc 0)" "(3 :: nat) = Suc (Suc (Suc 0))"
    by simp_all
  show ?thesis
    using capturing_until_decoded [OF c, of flaky_radio_env "[]" "Suc (Suc 0)"] c f0 f1 d2
    by (simp add: flaky_run_1 flaky_run_2 less_Suc_eq le_Suc_eq all_conj_distrib)
qed

text \<open>
  Claim C10. When the radio delivers a 27-byte frame whose byte 0 is not \<open>0xD4\<close>,
  \<^verbatim>\<open>capture\<close> returns false and the receive call is all that happened: nothing is
  appended to the history buffer and no diagnostic of the decoder is printed, whatever the
  26 payload bytes are.
\<close>

theorem capture_wrong_sync_byte:
  assumes "reply_radio_receive E tr = (RADIOLIB_ERR_NONE, recvData)"
    and "length recvData = 27"
    and "recvData ! 0 \<noteq> 0xD4"
  shows "capture E tr = (False, tr @ [Ev_radio_receive RADIOLIB_ERR_NONE recvData])"
  using assms by (simp add: capture_def radio_receive_def)

theorem capture_wrong_sync_byte_witness:
  "length (0x00 # example_payload) = 27 \<and>
   fst (decodeBresser5In1Payload (drop 1 (0x00 # example_payload)) 26 WeatherData_zero) = DECODE_OK \<and>
   capture unsynced_frame_env [] =
     (False, [Ev_radio_receive RADIOLIB_ERR_NONE (0x00 # example_payload)])"
proof -
  have r: "reply_radio_receive unsynced_frame_env [] = (RADIOLIB_ERR_NONE, 0x00 # example_payload)"
    by (simp add: unsynced_frame_env_def)
  have l: "length (0x00 # example_payload) = 27"
    by (simp add: example_payload_def)
  have b: "(0x00 # example_payload) ! 0 \<noteq> 0xD4"
    by simp
  show ?thesis
    using capture_wrong_sync_byte [OF r l b] l by (simp add: example_payload_decode)
qed

subsection \<open>Sending\<close>

text \<open>
  One call of \<^verbatim>\<open>emitBufferedDataEntry\<close> adds one attempt to an upload cycle; the upload
  loop, which starts at \<open>i\<close>, adds at most \<open>20 - i\<close> of them.
\<close>

lemma upload_cycle_nothing_peeked:
  "upload_cycle n rest \<Longrightarrow> upload_cycle (Suc n) (Ev_peekNextWeatherDataEntry False e t # rest)"
  by simp

lemma upload_cycle_row_refused:
  "upload_cycle n rest \<Longrightarrow>
   upload_cycle (Suc n) (Ev_peekNextWeatherDataEntry True e t # Ev_appendRowToSheet e False # rest)"
  by simp

lemma upload_cycle_row_confirmed:
  "upload_cycle n rest \<Longrightarrow>
   upload_cycle (Suc n)
     (Ev_peekNextWeatherDataEntry True e t # Ev_appendRowToSheet e True #
      Ev_confirmPeekWeatherDataEntry t # rest)"
  by simp

lemma emit_events:
  "\<exists>blk. snd (emitBufferedDataEntry E tr) = tr @ blk \<and> filter is_upload_event blk = blk \<and>
     (\<forall>n rest. upload_cycle n rest \<longrightarrow> upload_cycle (Suc n) (blk @ rest))"
proof -
  obtain ok e t where p: "reply_peekNextWeatherDataEntry E tr = (ok, e, t)"
    by (cases "reply_peekNextWeatherDataEntry E tr")
  show ?thesis
  proof (cases ok)
    case False
    with p have "snd (emitBufferedDataEntry E tr) = tr @ [Ev_peekNextWeatherDataEntry False e t]"
      by (simp add: emitBufferedDataEntry_def peekNextWeatherDataEntry_def)
    then show ?thesis by simp
  next
    case True
    show ?thesis
    proof (cases "reply_appendRowToSheet E (tr @ [Ev_peekNextWeatherDataEntry True e t])")
      case False
      with p True have "snd (emitBufferedDataEntry E tr) =
          tr @ [Ev_peekNextWeatherDataEntry True e t, Ev_appendRowToSheet e False]"
        by (simp add: emitBufferedDataEntry_def peekNextWeatherDataEntry_def appendRowToSheet_def)
      then show ?thesis by simp
    next
      case accepted: True
      with p True have "snd (emitBufferedDataEntry E tr) =
          tr @ [Ev_peekNextWeatherDataEntry True e t, Ev_appendRowToSheet e True,
                Ev_confirmPeekWeatherDataEntry t]"
        by (simp add: emitBufferedDataEntry_def peekNextWeatherDataEntry_def appendRowToSheet_def
            confirmPeekWeatherDataEntry_def)
      then show ?thesis by simp
    qed
  qed
qed

lemma upload_loop_events:
  "\<exists>new. snd (upload_loop E i sent tr) = tr @ new \<and>
     upload_cycle (20 - i) (filter is_upload_event new)"
proof (induction E i sent tr rule: upload_loop.induct)
  case (1 E i sent tr)
  show ?case
  proof (cases "i < 20 \<and> 0 < reply_getTotalWeatherDataEntries E tr")
    case False
    then have "snd (upload_loop E i sent tr) =
        (if i < 20
         then tr @ [Ev_getTotalWeatherDataEntries (reply_getTotalWeatherDataEntries E tr)]
         else tr)"
      by (subst upload_loop.simps) (simp add: getTotalWeatherDataEntries_def)
    then show ?thesis
      by (cases "i < 20") simp_all
  next
    case True
    define tr1 where "tr1 = tr @ [Ev_getTotalWeatherDataEntries (reply_getTotalWeatherDataEntries E tr)]"
    obtain emitted tr2 where e: "emitBufferedDataEntry E tr1 = (emitted, tr2)"
      by (cases "emitBufferedDataEntry E tr1")
    obtain blk where blk: "tr2 = tr1 @ blk" "filter is_upload_event blk = blk"
      "\<forall>n rest. upload_cycle n rest \<longrightarrow> upload_cycle (Suc n) (blk @ rest)"
      using emit_events [of E tr1] e by auto
    have g: "getTotalWeatherDataEntries E tr = (reply_getTotalWeatherDataEntries E tr, tr1)"
      by (simp add: getTotalWeatherDataEntries_def tr1_def Let_def)
    have "\<exists>new. snd (upload_loop E (Suc i) (sent \<or> emitted) (delay 250 tr2)) = delay 250 tr2 @ new \<and>
        upload_cycle (20 - Suc i) (filter is_upload_event new)"
      using True by (intro "1.IH" [OF _ g [symmetric] _ e [symmetric]]) simp_all
    then obtain new where new:
      "snd (upload_loop E (Suc i) (sent \<or> emitted) (delay 250 tr2)) = delay 250 tr2 @ new"
      "upload_cycle (20 - Suc i) (filter is_upload_event new)"
      by blast
    have u: "upload_loop E i sent tr = upload_loop E (Suc i) (sent \<or> emitted) (delay 250 tr2)"
      using True g e by (subst upload_loop.simps) simp
    have s: "20 - i = Suc (20 - Suc i)"
      using True by arith
    have "snd (upload_loop E i sent tr) =
        tr @ ([Ev_getTotalWeatherDataEntries (reply_getTotalWeatherDataEntries E tr)] @ blk @ [Ev_delay 250] @ new)"
      unfolding u new(1) by (simp add: blk(1) tr1_def delay_def)
    moreover have "upload_cycle (20 - i)
        (filter is_upload_event
          ([Ev_getTotalWeatherDataEntries (reply_getTotalWeatherDataEntries E tr)] @ blk @ [Ev_delay 250] @ new))"
      unfolding s using blk(2,3) new(2) by simp
    ultimately show ?thesis
      by blast
  qed
qed

text \<open>
  The waiting loops of \<^verbatim>\<open>send\<close> never touch the buffer or the sheet.
\<close>

lemma extends_quietly_refl: "extends_quietly tr tr"
  by (simp add: extends_quietly_def)

lemma extends_quietly_trans:
  "extends_quietly a b \<Longrightarrow> extends_quietly b c \<Longrightarrow> extends_quietly a c"
  unfolding extends_quietly_def by fastforce

lemma extends_quietly_snoc:
  "extends_quietly a b \<Longrightarrow> \<not> is_upload_event e \<Longrightarrow> extends_quietly a (b @ [e])"
  unfolding extends_quietly_def by fastforce

lemma extends_quietly_append:
  "extends_quietly a b \<Longrightarrow> filter is_upload_event es = [] \<Longrightarrow> extends_quietly a (b @ es)"
  unfolding extends_quietly_def by fastforce

lemma wifi_wait_inner_quiet: "extends_quietly tr (wifi_wait_inner E i tr)"
proof (induction E i tr rule: wifi_wait_inner.induct)
  case (1 E i tr)
  show ?case
  proof (cases "i < 20 \<and> \<not> reply_handleWifiConnection E tr")
    case True
    have h: "handleWifiConnection E tr = (False, tr @ [Ev_handleWifiConnection False])"
      using True by (simp add: handleWifiConnection_def Let_def)
    have "extends_quietly (delay 250 (tr @ [Ev_handleWifiConnection False]))
        (wifi_wait_inner E (Suc i) (delay 250 (tr @ [Ev_handleWifiConnection False])))"
      using True by (intro "1.IH" [OF _ h [symmetric]]) simp_all
    moreover have "extends_quietly tr (delay 250 (tr @ [Ev_handleWifiConnection False]))"
      unfolding delay_def by (intro extends_quietly_snoc extends_quietly_refl) simp_all
    moreover have "wifi_wait_inner E i tr =
        wifi_wait_inner E (Suc i) (delay 250 (tr @ [Ev_handleWifiConnection False]))"
      using True h by (subst wifi_wait_inner.simps) simp
    ultimately show ?thesis
      using extends_quietly_trans by simp
  next
    case False
    then have "wifi_wait_inner E i tr =
        (if i < 20 then tr @ [Ev_handleWifiConnection True] else tr)"
      by (subst wifi_wait_inner.simps) (auto simp: handleWifiConnection_def Let_def)
    then show ?thesis
      by (cases "i < 20") (simp_all add: extends_quietly_snoc extends_quietly_refl)
  qed
qed

lemma wifi_wait_quiet: "extends_quietly tr (wifi_wait E retry tr)"
proof (induction E retry tr rule: wifi_wait.induct)
  case (1 E retry tr)
  show ?case
  proof (cases "retry < 6 \<and> \<not> reply_handleWifiConnection E tr")
    case True
    have h: "handleWifiConnection E tr = (False, tr @ [Ev_handleWifiConnection False])"
      using True by (simp add: handleWifiConnection_def Let_def)
    have "extends_quietly (wifi_wait_inner E 0 (tr @ [Ev_handleWifiConnection False]))
        (wifi_wait E (Suc retry) (wifi_wait_inner E 0 (tr @ [Ev_handleWifiConnection False])))"
      using True by (intro "1.IH" [OF _ h [symmetric]]) simp_all
    moreover have "extends_quietly tr (tr @ [Ev_handleWifiConnection False])"
      by (intro extends_quietly_snoc extends_quietly_refl) simp_all
    moreover have "extends_quietly (tr @ [Ev_handleWifiConnection False])
        (wifi_wait_inner E 0 (tr @ [Ev_handleWifiConnection False]))"
      by (rule wifi_wait_inner_quiet)
    moreover have "wifi_wait E retry tr =
        wifi_wait E (Suc retry) (wifi_wait_inner E 0 (tr @ [Ev_handleWifiConnection False]))"
      using True h by (subst wifi_wait.simps) simp
    ultimately show ?thesis
      using extends_quietly_trans by metis
  next
    case False
    then have "wifi_wait E retry tr =
        (if retry < 6 then tr @ [Ev_handleWifiConnection True] else tr)"
      by (subst wifi_wait.simps) (auto simp: handleWifiConnection_def Let_def)
    then show ?thesis
      by (cases "retry < 6") (simp_all add: extends_quietly_snoc extends_quietly_refl)
  qed
qed

lemma token_wait_quiet: "extends_quietly tr (token_wait E i tr)"
proof (induction E i tr rule: token_wait.induct)
  case (1 E i tr)
  show ?case
  proof (cases "\<not> reply_checkGoogleAccessTokenReady E tr \<and> i < 60")
    case True
    have h: "checkGoogleAccessTokenReady E tr = (False, tr @ [Ev_checkGoogleAccessTokenReady False])"
      using True by (simp add: checkGoogleAccessTokenReady_def Let_def)
    have "extends_quietly (delay 500 (tr @ [Ev_checkGoogleAccessTokenReady False]))
        (token_wait E (Suc i) (delay 500 (tr @ [Ev_checkGoogleAccessTokenReady False])))"
      using True by (intro "1.IH" [OF h [symmetric]]) simp_all
    moreover have "extends_quietly tr (delay 500 (tr @ [Ev_checkGoogleAccessTokenReady False]))"
      unfolding delay_def by (intro extends_quietly_snoc extends_quietly_refl) simp_all
    moreover have "token_wait E i tr =
        token_wait E (Suc i) (delay 500 (tr @ [Ev_checkGoogleAccessTokenReady False]))"
      using True h by (subst token_wait.simps) simp
    ultimately show ?thesis
      using extends_quietly_trans by simp
  next
    case False
    then have "token_wait E i tr =
        tr @ [Ev_checkGoogleAccessTokenReady (reply_checkGoogleAccessTokenReady E tr)]"
      by (subst token_wait.simps) (auto simp: checkGoogleAccessTokenReady_def Let_def)
    then show ?thesis
      by (simp add: extends_quietly_snoc extends_quietly_refl)
  qed
qed

text \<open>
  In an upload cycle of at most \<open>n\<close> attempts at most \<open>n\<close> rows are offered, and there are
  as many confirmations as accepted rows.
\<close>

lemma upload_cycle_counts:
  "upload_cycle n xs \<Longrightarrow>
     length (filter is_row_offered xs) \<le> n \<and>
     length (filter is_confirmation xs) = length (filter is_row_accepted xs)"
proof (induction n xs rule: upload_cycle.induct)
  case (3 n ok e t xs)
  show ?case
  proof (cases ok)
    case False
    with 3 show ?thesis by simp
  next
    case True
    with "3.prems" obtain accepted ys where xs: "xs = Ev_appendRowToSheet e accepted # ys"
      by (auto split: list.splits event.splits)
    show ?thesis
    proof (cases accepted)
      case False
      with True xs 3 show ?thesis by simp
    next
      case acc: True
      with True xs "3.prems" obtain zs where ys: "ys = Ev_confirmPeekWeatherDataEntry t # zs"
        by (auto split: list.splits event.splits)
      with True xs acc 3 show ?thesis by simp
    qed
  qed
qed simp_all

lemma filter_upload_counts:
  "filter is_row_offered (filter is_upload_event xs) = filter is_row_offered xs"
  "filter is_row_accepted (filter is_upload_event xs) = filter is_row_accepted xs"
  "filter is_confirmation (filter is_upload_event xs) = filter is_confirmation xs"
proof -
  have "is_row_offered e \<Longrightarrow> is_upload_event e" for e by (cases e) simp_all
  moreover have "is_row_accepted e \<Longrightarrow> is_upload_event e" for e by (cases e) simp_all
  moreover have "is_confirmation e \<Longrightarrow> is_upload_event e" for e by (cases e) simp_all
  ultimately show
    "filter is_row_offered (filter is_upload_event xs) = filter is_row_offered xs"
    "filter is_row_accepted (filter is_upload_event xs) = filter is_row_accepted xs"
    "filter is_confirmation (filter is_upload_event xs) = filter is_confirmation xs"
    by (auto intro!: filter_cong)
qed

lemma quiet_cycle:
  assumes "extends_quietly tr tr'"
  shows "\<exists>new. tr' = tr @ new \<and> upload_cycle 20 (filter is_upload_event new)"
  using assms unfolding extends_quietly_def by auto

lemma quiet_then_upload:
  assumes "extends_quietly tr pre"
  shows "\<exists>new. snd (upload_loop E 0 sent pre) = tr @ new \<and>
     upload_cycle 20 (filter is_upload_event new)"
proof -
  from assms obtain np where np: "pre = tr @ np" "filter is_upload_event np = []"
    unfolding extends_quietly_def by blast
  from upload_loop_events [of E 0 sent pre] obtain nu where
    nu: "snd (upload_loop E 0 sent pre) = pre @ nu" "upload_cycle 20 (filter is_upload_event nu)"
    by auto
  have "snd (upload_loop E 0 sent pre) = tr @ (np @ nu)"
    using nu(1) unfolding np(1) by simp
  moreover have "upload_cycle 20 (filter is_upload_event (np @ nu))"
    using np(2) nu(2) by simp
  ultimately show ?thesis by blast
qed

lemma send_events:
  "\<exists>new. snd (send E tr) = tr @ new \<and> upload_cycle 20 (filter is_upload_event new)"
proof -
  define t2 where "t2 = wifi_wait E 0 (delay 100 tr)"
  have q2: "extends_quietly tr t2"
  proof -
    have "extends_quietly tr (delay 100 tr)"
      unfolding delay_def by (intro extends_quietly_snoc extends_quietly_refl) simp
    then show ?thesis
      unfolding t2_def using wifi_wait_quiet extends_quietly_trans by blast
  qed
  show ?thesis
  proof (cases "reply_handleWifiConnection E t2")
    case False
    then have "snd (send E tr) = t2 @ [Ev_handleWifiConnection False]"
      by (simp add: send_def Let_def handleWifiConnection_def t2_def)
    moreover have "extends_quietly tr (t2 @ [Ev_handleWifiConnection False])"
      using q2 by (rule extends_quietly_snoc) simp
    ultimately show ?thesis
      using quiet_cycle by simp
  next
    case up: True
    define t3 where "t3 = t2 @ [Ev_handleWifiConnection True]"
    define t4 where "t4 = t3 @ [Ev_isGoogleAccessTokenInit (reply_isGoogleAccessTokenInit E t3)]"
    define t5 where "t5 =
      (if \<not> reply_isGoogleAccessTokenInit E t3
       then setupGoogleAccessTokenAcquire (sleepTimeMinutes * 60 + 30) (delay 100 t4)
       else t4)"
    define t8 where "t8 = delay 100 (token_wait E 0 (delay 100 t5))"
    have q3: "extends_quietly tr t3"
      unfolding t3_def using q2 by (rule extends_quietly_snoc) simp
    have q4: "extends_quietly tr t4"
      unfolding t4_def using q3 by (rule extends_quietly_snoc) simp
    have q5: "extends_quietly tr t5"
      unfolding t5_def setupGoogleAccessTokenAcquire_def delay_def
      using q4 by (auto intro!: extends_quietly_append)
    have q6: "extends_quietly tr (delay 100 t5)"
      unfolding delay_def using q5 by (rule extends_quietly_snoc) simp
    have q7: "extends_quietly tr (token_wait E 0 (delay 100 t5))"
      using q6 token_wait_quiet extends_quietly_trans by blast
    have q8: "extends_quietly tr t8"
      using q7 unfolding t8_def delay_def by (rule extends_quietly_snoc) simp
    have s: "send E tr =
      (if reply_checkGoogleAccessTokenReady E t8
       then upload_loop E 0 False
              (delay 100 (t8 @ [Ev_checkGoogleAccessTokenReady True,
                 Ev_getTotalWeatherDataEntries
                   (reply_getTotalWeatherDataEntries E (t8 @ [Ev_checkGoogleAccessTokenReady True]))]))
       else (False, t8 @ [Ev_checkGoogleAccessTokenReady False]))"
      using up
      by (simp add: send_def Let_def handleWifiConnection_def isGoogleAccessTokenInit_def
          checkGoogleAccessTokenReady_def getTotalWeatherDataEntries_def
          t2_def [symmetric] t3_def [symmetric] t4_def [symmetric] t5_def [symmetric]
          t8_def [symmetric])
    show ?thesis
    proof (cases "reply_checkGoogleAccessTokenReady E t8")
      case False
      then have "snd (send E tr) = t8 @ [Ev_checkGoogleAccessTokenReady False]"
        by (simp add: s)
      moreover have "extends_quietly tr (t8 @ [Ev_checkGoogleAccessTokenReady False])"
        using q8 by (rule extends_quietly_snoc) simp
      ultimately show ?thesis
        using quiet_cycle by simp
    next
      case True
      have "extends_quietly tr
          (delay 100 (t8 @ [Ev_checkGoogleAccessTokenReady True,
             Ev_getTotalWeatherDataEntries
               (reply_getTotalWeatherDataEntries E (t8 @ [Ev_checkGoogleAccessTokenReady True]))]))"
        using extends_quietly_snoc [OF extends_quietly_snoc [OF extends_quietly_snoc [OF q8]]]
        by (simp add: delay_def)
      then show ?thesis
        unfolding s using True by (simp add: quiet_then_upload)
    qed
  qed
qed

text \<open>
  Every call of \<^verbatim>\<open>send\<close> records the collaborator's answer. The loops that wait for WiFi add
  WiFi checks and delays only; the part that waits for the token adds token calls and
  delays only.
\<close>

lemma answers_append: "answers E h (a @ b) = (answers E h a \<and> answers E (h @ a) b)"
  by (induction a arbitrary: h) simp_all

lemma wifi_answers_append: "wifi_answers (a @ b) = wifi_answers a @ wifi_answers b"
  by (induction a rule: wifi_answers.induct) simp_all

lemma token_answers_append: "token_answers (a @ b) = token_answers a @ token_answers b"
  by (induction a rule: token_answers.induct) simp_all

lemma connect_events:
  "list_all is_connect_event new \<Longrightarrow>
     token_answers new = [] \<and> filter is_cycle_event new = []"
proof (induction new)
  case (Cons e es)
  then show ?case by (cases e) simp_all
qed simp

lemma token_events:
  "list_all is_token_event new \<Longrightarrow>
     wifi_answers new = [] \<and> filter is_cycle_event new = []"
proof (induction new)
  case (Cons e es)
  then show ?case by (cases e) simp_all
qed simp

lemma extends_with_refl: "extends_with P E tr tr"
  by (simp add: extends_with_def)

lemma extends_with_trans:
  assumes "extends_with P E a b" "extends_with P E b c"
  shows "extends_with P E a c"
proof -
  from assms(1) obtain n1 where n1: "b = a @ n1" "answers E a n1" "list_all P n1"
    unfolding extends_with_def by blast
  from assms(2) obtain n2 where n2: "c = b @ n2" "answers E b n2" "list_all P n2"
    unfolding extends_with_def by blast
  have "c = a @ (n1 @ n2)"
    using n1(1) n2(1) by simp
  moreover have "answers E a (n1 @ n2)"
    using n1(2) n2(2) unfolding n1(1) by (simp add: answers_append)
  moreover have "list_all P (n1 @ n2)"
    using n1(3) n2(3) by simp
  ultimately show ?thesis
    unfolding extends_with_def by blast
qed

lemma extends_with_snoc:
  assumes "extends_with P E a b" "P e" "answered_by E b e"
  shows "extends_with P E a (b @ [e])"
proof -
  have "extends_with P E b (b @ [e])"
    unfolding extends_with_def using assms(2,3) by simp
  with assms(1) show ?thesis
    by (rule extends_with_trans)
qed

lemma wifi_wait_inner_connects: "extends_with is_connect_event E tr (wifi_wait_inner E i tr)"
proof (induction E i tr rule: wifi_wait_inner.induct)
  case (1 E i tr)
  show ?case
  proof (cases "i < 20 \<and> \<not> reply_handleWifiConnection E tr")
    case True
    define tr1 where "tr1 = tr @ [Ev_handleWifiConnection False]"
    have h: "handleWifiConnection E tr = (False, tr1)"
      using True by (simp add: handleWifiConnection_def Let_def tr1_def)
    have "extends_with is_connect_event E (delay 250 tr1) (wifi_wait_inner E (Suc i) (delay 250 tr1))"
      using True by (intro "1.IH" [OF _ h [symmetric]]) simp_all
    moreover have "extends_with is_connect_event E tr (delay 250 tr1)"
      unfolding delay_def tr1_def using True
      by (intro extends_with_snoc extends_with_refl) simp_all
    moreover have "wifi_wait_inner E i tr = wifi_wait_inner E (Suc i) (delay 250 tr1)"
      using True h by (subst wifi_wait_inner.simps) simp
    ultimately show ?thesis
      using extends_with_trans by simp
  next
    case False
    then have "wifi_wait_inner E i tr =
        (if i < 20 then tr @ [Ev_handleWifiConnection True] else tr)"
      by (subst wifi_wait_inner.simps) (auto simp: handleWifiConnection_def Let_def)
    with False show ?thesis
      by (cases "i < 20") (simp_all add: extends_with_snoc extends_with_refl)
  qed
qed

lemma wifi_wait_connects: "extends_with is_connect_event E tr (wifi_wait E retry tr)"
proof (induction E retry tr rule: wifi_wait.induct)
  case (1 E retry tr)
  show ?case
  proof (cases "retry < 6 \<and> \<not> reply_handleWifiConnection E tr")
    case True
    define tr1 where "tr1 = tr @ [Ev_handleWifiConnection False]"
    have h: "handleWifiConnection E tr = (False, tr1)"
      using True by (simp add: handleWifiConnection_def Let_def tr1_def)
    have "extends_with is_connect_event E (wifi_wait_inner E 0 tr1)
        (wifi_wait E (Suc retry) (wifi_wait_inner E 0 tr1))"
      using True by (intro "1.IH" [OF _ h [symmetric]]) simp_all
    moreover have "extends_with is_connect_event E tr tr1"
      unfolding tr1_def using True
      by (intro extends_with_snoc extends_with_refl) simp_all
    moreover have "extends_with is_connect_event E tr1 (wifi_wait_inner E 0 tr1)"
      by (rule wifi_wait_inner_connects)
    moreover have "wifi_wait E retry tr = wifi_wait E (Suc retry) (wifi_wait_inner E 0 tr1)"
      using True h by (subst wifi_wait.simps) simp
    ultimately show ?thesis
      using extends_with_trans by metis
  next
    case False
    then have "wifi_wait E retry tr =
        (if retry < 6 then tr @ [Ev_handleWifiConnection True] else tr)"
      by (subst wifi_wait.simps) (auto simp: handleWifiConnection_def Let_def)
    with False show ?thesis
      by (cases "retry < 6") (simp_all add: extends_with_snoc extends_with_refl)
  qed
qed

lemma token_wait_tokens: "extends_with is_token_event E tr (token_wait E i tr)"
proof (induction E i tr rule: token_wait.induct)
  case (1 E i tr)
  show ?case
  proof (cases "\<not> reply_checkGoogleAccessTokenReady E tr \<and> i < 60")
    case True
    define tr1 where "tr1 = tr @ [Ev_checkGoogleAccessTokenReady False]"
    have h: "checkGoogleAccessTokenReady E tr = (False, tr1)"
      using True by (simp add: checkGoogleAccessTokenReady_def Let_def tr1_def)
    have "extends_with is_token_event E (delay 500 tr1) (token_wait E (Suc i) (delay 500 tr1))"
      using True by (intro "1.IH" [OF h [symmetric]]) simp_all
    moreover have "extends_with is_token_event E tr (delay 500 tr1)"
      unfolding delay_def tr1_def using True
      by (intro extends_with_snoc extends_with_refl) simp_all
    moreover have "token_wait E i tr = token_wait E (Suc i) (delay 500 tr1)"
      using True h by (subst token_wait.simps) simp
    ultimately show ?thesis
      using extends_with_trans by simp
  next
    case False
    then have "token_wait E i tr =
        tr @ [Ev_checkGoogleAccessTokenReady (reply_checkGoogleAccessTokenReady E tr)]"
      by (subst token_wait.simps) (auto simp: checkGoogleAccessTokenReady_def Let_def)
    then show ?thesis
      by (simp add: extends_with_snoc extends_with_refl)
  qed
qed

text \<open>
  One call of \<^verbatim>\<open>emitBufferedDataEntry\<close> after a positive count is one attempt; the upload
  loop, which starts at \<open>i\<close>, runs the attempts of a cycle of \<open>20 - i\<close>.
\<close>

lemma emit_attempt:
  "\<exists>blk. snd (emitBufferedDataEntry E tr) = tr @ blk \<and> answers E tr blk \<and>
     wifi_answers blk = [] \<and> token_answers blk = [] \<and> filter is_cycle_event blk = blk \<and>
     (\<forall>n c rest. upload_attempts n rest \<longrightarrow>
        upload_attempts (Suc n) (Ev_getTotalWeatherDataEntries (Suc c) # blk @ rest))"
proof -
  obtain ok e t where p: "reply_peekNextWeatherDataEntry E tr = (ok, e, t)"
    by (cases "reply_peekNextWeatherDataEntry E tr")
  show ?thesis
  proof (cases ok)
    case False
    with p have "snd (emitBufferedDataEntry E tr) = tr @ [Ev_peekNextWeatherDataEntry False e t]"
      by (simp add: emitBufferedDataEntry_def peekNextWeatherDataEntry_def)
    with p False show ?thesis by simp
  next
    case True
    define tr1 where "tr1 = tr @ [Ev_peekNextWeatherDataEntry True e t]"
    show ?thesis
    proof (cases "reply_appendRowToSheet E tr1")
      case False
      with p True have "snd (emitBufferedDataEntry E tr) =
          tr @ [Ev_peekNextWeatherDataEntry True e t, Ev_appendRowToSheet e False]"
        by (simp add: emitBufferedDataEntry_def peekNextWeatherDataEntry_def appendRowToSheet_def
            tr1_def)
      with p True False show ?thesis by (simp add: tr1_def)
    next
      case accepted: True
      with p True have "snd (emitBufferedDataEntry E tr) =
          tr @ [Ev_peekNextWeatherDataEntry True e t, Ev_appendRowToSheet e True,
                Ev_confirmPeekWeatherDataEntry t]"
        by (simp add: emitBufferedDataEntry_def peekNextWeatherDataEntry_def appendRowToSheet_def
            confirmPeekWeatherDataEntry_def tr1_def)
      with p True accepted show ?thesis by (simp add: tr1_def)
    qed
  qed
qed

lemma upload_loop_attempts:
  "\<exists>new. snd (upload_loop E i sent tr) = tr @ new \<and> answers E tr new \<and>
     wifi_answers new = [] \<and> token_answers new = [] \<and>
     upload_attempts (20 - i) (filter is_cycle_event new)"
proof (induction E i sent tr rule: upload_loop.induct)
  case (1 E i sent tr)
  define c where "c = reply_getTotalWeatherDataEntries E tr"
  define tr1 where "tr1 = tr @ [Ev_getTotalWeatherDataEntries c]"
  have g: "getTotalWeatherDataEntries E tr = (c, tr1)"
    by (simp add: getTotalWeatherDataEntries_def tr1_def c_def Let_def)
  show ?case
  proof (cases "i < 20")
    case False
    then have "snd (upload_loop E i sent tr) = tr @ []"
      by (subst upload_loop.simps) simp
    moreover have "20 - i = 0"
      using False by simp
    ultimately show ?thesis
      by (intro exI [of _ "[]"]) simp
  next
    case less: True
    then obtain n where n: "20 - i = Suc n" "20 - Suc i = n"
      by (cases "20 - i") simp_all
    show ?thesis
    proof (cases "0 < c")
      case False
      then have "snd (upload_loop E i sent tr) = tr @ [Ev_getTotalWeatherDataEntries c]"
        using less g by (subst upload_loop.simps) (simp add: tr1_def)
      with False show ?thesis
        unfolding n(1) by (intro exI [of _ "[Ev_getTotalWeatherDataEntries c]"]) (simp add: c_def)
    next
      case True
      then obtain c' where c': "c = Suc c'"
        by (cases c) simp_all
      obtain emitted tr2 where e: "emitBufferedDataEntry E tr1 = (emitted, tr2)"
        by (cases "emitBufferedDataEntry E tr1")
      obtain blk where blk: "tr2 = tr1 @ blk" "answers E tr1 blk"
        "wifi_answers blk = []" "token_answers blk = []" "filter is_cycle_event blk = blk"
        "\<forall>n c rest. upload_attempts n rest \<longrightarrow>
           upload_attempts (Suc n) (Ev_getTotalWeatherDataEntries (Suc c) # blk @ rest)"
        using emit_attempt [of E tr1] e by auto
      have "\<exists>new. snd (upload_loop E (Suc i) (sent \<or> emitted) (delay 250 tr2)) = delay 250 tr2 @ new \<and>
          answers E (delay 250 tr2) new \<and> wifi_answers new = [] \<and> token_answers new = [] \<and>
          upload_attempts (20 - Suc i) (filter is_cycle_event new)"
        using less True by (intro "1.IH" [OF _ g [symmetric] _ e [symmetric]]) simp_all
      then obtain new where new:
        "snd (upload_loop E (Suc i) (sent \<or> emitted) (delay 250 tr2)) = delay 250 tr2 @ new"
        "answers E (delay 250 tr2) new" "wifi_answers new = []" "token_answers new = []"
        "upload_attempts n (filter is_cycle_event new)"
        unfolding n(2) by blast
      have u: "upload_loop E i sent tr = upload_loop E (Suc i) (sent \<or> emitted) (delay 250 tr2)"
        using less True g e by (subst upload_loop.simps) simp
      define all where "all = [Ev_getTotalWeatherDataEntries c] @ blk @ [Ev_delay 250] @ new"
      have "snd (upload_loop E i sent tr) = tr @ all"
        unfolding u new(1) by (simp add: blk(1) tr1_def delay_def all_def)
      moreover have "answers E tr all"
        using blk(2) new(2) unfolding all_def blk(1) tr1_def delay_def
        by (simp add: answers_append c_def)
      moreover have "wifi_answers all = []" "token_answers all = []"
        using blk(3,4) new(3,4)
        by (simp_all add: all_def wifi_answers_append token_answers_append)
      moreover have "upload_attempts (20 - i) (filter is_cycle_event all)"
      proof -
        have "filter is_cycle_event all =
            Ev_getTotalWeatherDataEntries (Suc c') # blk @ filter is_cycle_event new"
          by (simp add: all_def blk(5) c')
        with blk(6) new(5) show ?thesis
          unfolding n(1) by simp
      qed
      ultimately show ?thesis
        by blast
    qed
  qed
qed

text \<open>
  With every count positive, a cycle of \<open>n\<close> attempts peeks \<open>n\<close> times. The counts a run
  records are counts the buffer returned.
\<close>

lemma upload_attempts_full:
  "upload_attempts n xs \<Longrightarrow> \<forall>c. Ev_getTotalWeatherDataEntries c \<in> set xs \<longrightarrow> 0 < c \<Longrightarrow>
     length (filter is_entry_peeked xs) = n"
proof (induction n xs rule: upload_attempts.induct)
  case (3 n c xs)
  from "3.prems"(2) [rule_format, of c] have "0 < c"
    by simp
  then obtain c' where c: "c = Suc c'"
    by (cases c) simp_all
  from "3.prems"(2) have rest: "\<forall>c. Ev_getTotalWeatherDataEntries c \<in> set xs \<longrightarrow> 0 < c"
    by simp
  from "3.prems"(1) obtain ok e t ys where xs: "xs = Ev_peekNextWeatherDataEntry ok e t # ys"
    unfolding c by (auto split: list.splits event.splits)
  from rest have ys: "\<forall>c. Ev_getTotalWeatherDataEntries c \<in> set ys \<longrightarrow> 0 < c"
    by (simp add: xs)
  show ?case
  proof (cases ok)
    case False
    with "3.prems"(1) have "upload_attempts n ys"
      by (simp add: c xs)
    with False ys have "length (filter is_entry_peeked ys) = n"
      by (intro "3.IH"(1) [OF _ xs refl]) (simp_all add: c)
    then show ?thesis
      by (simp add: xs)
  next
    case True
    with "3.prems"(1) obtain accepted zs where ys': "ys = Ev_appendRowToSheet e accepted # zs"
      by (auto simp: c xs split: list.splits event.splits)
    from ys have zs: "\<forall>c. Ev_getTotalWeatherDataEntries c \<in> set zs \<longrightarrow> 0 < c"
      by (simp add: ys')
    show ?thesis
    proof (cases accepted)
      case False
      with True "3.prems"(1) have "upload_attempts n zs"
        by (simp add: c xs ys')
      with True False zs have "length (filter is_entry_peeked zs) = n"
        by (intro "3.IH"(2) [OF _ xs refl _ ys' refl]) (simp_all add: c)
      then show ?thesis
        by (simp add: xs ys')
    next
      case acc: True
      with True "3.prems"(1) obtain ws where zs': "zs = Ev_confirmPeekWeatherDataEntry t # ws"
        by (auto simp: c xs ys' split: list.splits event.splits)
      from zs have ws: "\<forall>c. Ev_getTotalWeatherDataEntries c \<in> set ws \<longrightarrow> 0 < c"
        by (simp add: zs')
      from True acc "3.prems"(1) have "upload_attempts n ws"
        by (simp add: c xs ys' zs')
      with True acc ws have "length (filter is_entry_peeked ws) = n"
        by (intro "3.IH"(3) [OF _ xs refl _ ys' refl _ zs' refl]) (simp_all add: c)
      then show ?thesis
        by (simp add: xs ys' zs')
    qed
  qed
qed simp_all

lemma answers_count:
  "answers E h new \<Longrightarrow> Ev_getTotalWeatherDataEntries c \<in> set new \<Longrightarrow>
     \<exists>h'. c = reply_getTotalWeatherDataEntries E h'"
proof (induction new arbitrary: h)
  case (Cons e es)
  then show ?case by (cases "e = Ev_getTotalWeatherDataEntries c") auto
qed simp

lemma answers_wifi:
  "answers E h new \<Longrightarrow> up \<in> set (wifi_answers new) \<Longrightarrow>
     \<exists>h'. up = reply_handleWifiConnection E h'"
proof (induction new arbitrary: h)
  case (Cons e es)
  then show ?case by (cases e) auto
qed simp

lemma answers_token:
  "answers E h new \<Longrightarrow> ready \<in> set (token_answers new) \<Longrightarrow>
     \<exists>h'. ready = reply_checkGoogleAccessTokenReady E h'"
proof (induction new arbitrary: h)
  case (Cons e es)
  then show ?case by (cases e) auto
qed simp

lemma performs_upload_cycle_full:
  assumes "performs_upload_cycle new" "answers E h new"
    and "\<forall>h. reply_handleWifiConnection E h" "\<forall>h. reply_checkGoogleAccessTokenReady E h"
    and "\<forall>h. 0 < reply_getTotalWeatherDataEntries E h"
  shows "length (filter is_entry_peeked new) = 20"
proof -
  have w: "wifi_answers new \<noteq> []" 
    using assms(1) by (simp add: performs_upload_cycle_def)
  then have "last (wifi_answers new) \<in> set (wifi_answers new)"
    by simp
  with answers_wifi [OF assms(2)] assms(3) have up: "last (wifi_answers new)"
    by metis
  with assms(1) have t: "token_answers new \<noteq> []"
    by (simp add: performs_upload_cycle_def)
  then have "last (token_answers new) \<in> set (token_answers new)"
    by simp
  with answers_token [OF assms(2)] assms(4) have ready: "last (token_answers new)"
    by metis
  from assms(1) up ready obtain c rest where
    r: "filter is_cycle_event new = Ev_getTotalWeatherDataEntries c # rest" "upload_attempts 20 rest"
    by (auto simp: performs_upload_cycle_def split: list.splits event.splits)
  have "0 < c'" if "Ev_getTotalWeatherDataEntries c' \<in> set rest" for c'
  proof -
    from that have "Ev_getTotalWeatherDataEntries c' \<in> set (filter is_cycle_event new)"
      by (simp add: r(1))
    then have "Ev_getTotalWeatherDataEntries c' \<in> set new"
      by simp
    from answers_count [OF assms(2) this] assms(5) show ?thesis
      by auto
  qed
  then have "length (filter is_entry_peeked rest) = 20"
    using r(2) by (intro upload_attempts_full) simp_all
  moreover have "filter is_entry_peeked new = filter is_entry_peeked (filter is_cycle_event new)"
  proof -
    have "is_entry_peeked e \<Longrightarrow> is_cycle_event e" for e
      by (cases e) simp_all
    then show ?thesis
      by (auto intro!: filter_cong)
  qed
  ultimately show ?thesis
    by (simp add: r(1))
qed

text \<open>The whole of \<^verbatim>\<open>send\<close> performs one upload cycle.\<close>

lemma send_performs:
  "\<exists>new. snd (send E tr) = tr @ new \<and> answers E tr new \<and> performs_upload_cycle new"
proof -
  define t2 where "t2 = wifi_wait E 0 (delay 100 tr)"
  define up where "up = reply_handleWifiConnection E t2"
  define t3 where "t3 = t2 @ [Ev_handleWifiConnection up]"
  have "extends_with is_connect_event E tr (delay 100 tr)"
    unfolding delay_def by (intro extends_with_snoc extends_with_refl) simp_all
  then have "extends_with is_connect_event E tr t2"
    unfolding t2_def using wifi_wait_connects extends_with_trans by blast
  then obtain n2 where n2: "t2 = tr @ n2" "answers E tr n2" "list_all is_connect_event n2"
    unfolding extends_with_def by blast
  note c2 = connect_events [OF n2(3)]
  define n3 where "n3 = n2 @ [Ev_handleWifiConnection up]"
  have n3: "t3 = tr @ n3" "answers E tr n3" "wifi_answers n3 \<noteq> []" "last (wifi_answers n3) = up"
    "token_answers n3 = []" "filter is_cycle_event n3 = []"
    using n2(1,2) c2
    by (simp_all add: t3_def n3_def answers_append wifi_answers_append token_answers_append up_def)
  show ?thesis
  proof (cases up)
    case False
    then have "snd (send E tr) = t3"
      by (simp add: send_def Let_def handleWifiConnection_def t2_def [symmetric] t3_def up_def)
    with n3 False show ?thesis
      by (intro exI [of _ n3]) (simp add: performs_upload_cycle_def)
  next
    case wifi: True
    define t4 where "t4 = t3 @ [Ev_isGoogleAccessTokenInit (reply_isGoogleAccessTokenInit E t3)]"
    define t5 where "t5 =
      (if \<not> reply_isGoogleAccessTokenInit E t3
       then setupGoogleAccessTokenAcquire (sleepTimeMinutes * 60 + 30) (delay 100 t4)
       else t4)"
    define t8 where "t8 = delay 100 (token_wait E 0 (delay 100 t5))"
    define ready where "ready = reply_checkGoogleAccessTokenReady E t8"
    define t9 where "t9 = t8 @ [Ev_checkGoogleAccessTokenReady ready]"
    have q4: "extends_with is_token_event E t3 t4"
      unfolding t4_def by (intro extends_with_snoc extends_with_refl) simp_all
    have "extends_with is_token_event E t3
        ((t4 @ [Ev_delay 100]) @ [Ev_setupGoogleAccessTokenAcquire (sleepTimeMinutes * 60 + 30)])"
      by (intro extends_with_snoc q4) simp_all
    with q4 have q5: "extends_with is_token_event E t3 t5"
      unfolding t5_def setupGoogleAccessTokenAcquire_def delay_def by simp
    have q6: "extends_with is_token_event E t3 (delay 100 t5)"
      unfolding delay_def using q5 by (rule extends_with_snoc) simp_all
    have q7: "extends_with is_token_event E t3 (token_wait E 0 (delay 100 t5))"
      using q6 token_wait_tokens extends_with_trans by blast
    have q8: "extends_with is_token_event E t3 t8"
      using q7 unfolding t8_def delay_def by (rule extends_with_snoc) simp_all
    have "extends_with is_token_event E t3 t9"
      unfolding t9_def using q8 by (rule extends_with_snoc) (simp_all add: ready_def)
    then obtain n9' where n9': "t9 = t3 @ n9'" "answers E t3 n9'" "list_all is_token_event n9'"
      unfolding extends_with_def by blast
    note c9 = token_events [OF n9'(3)]
    have tk: "token_answers n9' \<noteq> []" "last (token_answers n9') = ready"
    proof -
      from q8 obtain n8 where "t8 = t3 @ n8"
        unfolding extends_with_def by blast
      with n9'(1) have "n9' = n8 @ [Ev_checkGoogleAccessTokenReady ready]"
        by (simp add: t9_def)
      then show "token_answers n9' \<noteq> []" "last (token_answers n9') = ready"
        by (simp_all add: token_answers_append)
    qed
    define n9 where "n9 = n3 @ n9'"
    have n9: "t9 = tr @ n9" "answers E tr n9" "wifi_answers n9 \<noteq> []" "last (wifi_answers n9)"
      "token_answers n9 \<noteq> []" "last (token_answers n9) = ready" "filter is_cycle_event n9 = []"
      using n3 n9' c9 tk wifi
      by (simp_all add: n9_def answers_append wifi_answers_append token_answers_append)
    define c where "c = reply_getTotalWeatherDataEntries E t9"
    have r: "reply_handleWifiConnection E t2"
      using wifi by (simp add: up_def)
    have t3': "t3 = t2 @ [Ev_handleWifiConnection True]"
      using wifi by (simp add: t3_def)
    have s0: "send E tr =
      (if reply_checkGoogleAccessTokenReady E t8
       then upload_loop E 0 False
              (delay 100 (t8 @ [Ev_checkGoogleAccessTokenReady True,
                 Ev_getTotalWeatherDataEntries
                   (reply_getTotalWeatherDataEntries E (t8 @ [Ev_checkGoogleAccessTokenReady True]))]))
       else (False, t8 @ [Ev_checkGoogleAccessTokenReady False]))"
      using r
      by (simp add: send_def Let_def handleWifiConnection_def isGoogleAccessTokenInit_def
          checkGoogleAccessTokenReady_def getTotalWeatherDataEntries_def
          t2_def [symmetric] t3' [symmetric] t4_def [symmetric] t5_def [symmetric]
          t8_def [symmetric])
    have s: "send E tr =
      (if ready
       then upload_loop E 0 False (t9 @ [Ev_getTotalWeatherDataEntries c, Ev_delay 100])
       else (False, t9))"
      unfolding s0 by (simp add: ready_def t9_def c_def delay_def)
    show ?thesis
    proof (cases ready)
      case False
      then have "snd (send E tr) = t9"
        by (simp add: s)
      with n9 False show ?thesis
        by (intro exI [of _ n9]) (simp add: performs_upload_cycle_def)
    next
      case True
      define pre where "pre = t9 @ [Ev_getTotalWeatherDataEntries c, Ev_delay 100]"
      from upload_loop_attempts [of E 0 False pre] obtain lp where
        lp: "snd (upload_loop E 0 False pre) = pre @ lp" "answers E pre lp"
        "wifi_answers lp = []" "token_answers lp = []"
        "upload_attempts 20 (filter is_cycle_event lp)"
        by auto
      define all where "all = n9 @ [Ev_getTotalWeatherDataEntries c, Ev_delay 100] @ lp"
      have "snd (send E tr) = tr @ all"
        using True lp(1) unfolding pre_def n9(1) by (simp add: s all_def n9(1))
      moreover have "answers E tr all"
        using n9(1,2) lp(2) by (simp add: all_def answers_append c_def pre_def)
      moreover have "performs_upload_cycle all"
        using n9(3-7) lp(3-5) True
        by (simp add: performs_upload_cycle_def all_def wifi_answers_append token_answers_append)
      ultimately show ?thesis
        by blast
    qed
  qed
qed

text \<open>
  Claim C8. A step from \<open>SEND_WEATHER_DATA\<close> always ends in \<open>SLEEP_UNTIL_TIME_SLOT\<close>, whatever
  the collaborators answer, and changes nothing else in the globals. The calls it adds to
  the history record the collaborators' answers and perform one upload cycle: WiFi is
  checked; if it is up at the last check the token is checked; if the token is ready at the
  last check the count of the buffered entries is asked and up to 20 attempts follow, each
  after a positive count, so that the cycle stops only at a count of zero or after the
  20th attempt. With WiFi up, the token ready and a buffer that never runs empty, exactly
  20 entries are peeked. At most 20 rows are offered to the sheet; a peek is confirmed only
  right after the sheet accepted the row of the entry peeked, so there are as many
  confirmations as accepted rows, and an entry whose row was refused is not confirmed.
\<close>

theorem sending_step:
  assumes "samplingState g = SEND_WEATHER_DATA"
  shows "fst (loop E (g, tr)) = g\<lparr>samplingState := SLEEP_UNTIL_TIME_SLOT\<rparr> \<and>
     (\<exists>new. snd (loop E (g, tr)) = tr @ new \<and>
        answers E tr new \<and> performs_upload_cycle new \<and>
        upload_cycle 20 (filter is_upload_event new) \<and>
        length (filter is_row_offered new) \<le> 20 \<and>
        length (filter is_confirmation new) = length (filter is_row_accepted new) \<and>
        ((\<forall>h. reply_handleWifiConnection E h) \<and> (\<forall>h. reply_checkGoogleAccessTokenReady E h) \<and>
         (\<forall>h. 0 < reply_getTotalWeatherDataEntries E h) \<longrightarrow>
           length (filter is_entry_peeked new) = 20))"
proof -
  from send_performs [of E tr] obtain new where
    new: "snd (send E tr) = tr @ new" "answers E tr new" "performs_upload_cycle new"
    by blast
  from send_events [of E tr] obtain new' where
    new': "snd (send E tr) = tr @ new'" "upload_cycle 20 (filter is_upload_event new')"
    by blast
  from new(1) new'(1) have same: "new' = new"
    by simp
  from upload_cycle_counts [OF new'(2)]
  have counts: "length (filter is_row_offered new) \<le> 20 \<and>
      length (filter is_confirmation new) = length (filter is_row_accepted new)"
    unfolding filter_upload_counts same .
  have full: "length (filter is_entry_peeked new) = 20"
    if "(\<forall>h. reply_handleWifiConnection E h) \<and> (\<forall>h. reply_checkGoogleAccessTokenReady E h) \<and>
      (\<forall>h. 0 < reply_getTotalWeatherDataEntries E h)"
    using performs_upload_cycle_full [OF new(3,2)] that by blast
  have "loop E (g, tr) = (g\<lparr>samplingState := SLEEP_UNTIL_TIME_SLOT\<rparr>, snd (send E tr))"
    using assms by (simp add: loop_def split: prod.splits)
  with new new'(2) counts full show ?thesis
    unfolding same by simp
qed

lemma upload_env_run:
  "snd (loop upload_env (sending_globals, [])) =
     [Ev_delay 100, Ev_handleWifiConnection True, Ev_handleWifiConnection True,
      Ev_isGoogleAccessTokenInit True, Ev_delay 100, Ev_checkGoogleAccessTokenReady True,
      Ev_delay 100, Ev_checkGoogleAccessTokenReady True, Ev_getTotalWeatherDataEntries 2,
      Ev_delay 100,
      Ev_getTotalWeatherDataEntries 2, Ev_peekNextWeatherDataEntry True entry_a 0,
      Ev_appendRowToSheet entry_a True, Ev_confirmPeekWeatherDataEntry 0, Ev_delay 250,
      Ev_getTotalWeatherDataEntries 1, Ev_peekNextWeatherDataEntry True entry_b 1,
      Ev_appendRowToSheet entry_b False, Ev_delay 250,
      Ev_getTotalWeatherDataEntries 1, Ev_peekNextWeatherDataEntry True entry_b 1,
      Ev_appendRowToSheet entry_b True, Ev_confirmPeekWeatherDataEntry 1, Ev_delay 250,
      Ev_getTotalWeatherDataEntries 0]"
  by (simp add: loop_def send_def sending_globals_def initial_globals_def upload_env_def
      quiet_env_def Let_def wifi_wait.simps token_wait.simps upload_loop.simps
      emitBufferedDataEntry_def handleWifiConnection_def isGoogleAccessTokenInit_def
      checkGoogleAccessTokenReady_def getTotalWeatherDataEntries_def
      peekNextWeatherDataEntry_def appendRowToSheet_def confirmPeekWeatherDataEntry_def
      delay_def)

theorem sending_step_witness:
  "samplingState sending_globals = SEND_WEATHER_DATA \<and>
   fst (loop upload_env (sending_globals, [])) =
     sending_globals\<lparr>samplingState := SLEEP_UNTIL_TIME_SLOT\<rparr> \<and>
   answers upload_env [] (snd (loop upload_env (sending_globals, []))) \<and>
   performs_upload_cycle (snd (loop upload_env (sending_globals, []))) \<and>
   upload_cycle 20 (filter is_upload_event (snd (loop upload_env (sending_globals, [])))) \<and>
   length (filter is_entry_peeked (snd (loop upload_env (sending_globals, [])))) = 3 \<and>
   length (filter is_row_offered (snd (loop upload_env (sending_globals, [])))) = 3 \<and>
   length (filter is_row_accepted (snd (loop upload_env (sending_globals, [])))) = 2 \<and>
   length (filter is_confirmation (snd (loop upload_env (sending_globals, [])))) = 2 \<and>
   length (filter is_entry_peeked (snd (loop backlog_env (sending_globals, [])))) = 20"
proof -
  have s: "samplingState sending_globals = SEND_WEATHER_DATA"
    by (simp add: sending_globals_def)
  from sending_step [OF s, of upload_env "[]"] obtain new where
    new: "fst (loop upload_env (sending_globals, [])) =
        sending_globals\<lparr>samplingState := SLEEP_UNTIL_TIME_SLOT\<rparr>"
      "snd (loop upload_env (sending_globals, [])) = new"
      "answers upload_env [] new" "performs_upload_cycle new"
      "upload_cycle 20 (filter is_upload_event new)"
    by auto
  have counts: "length (filter is_entry_peeked (snd (loop upload_env (sending_globals, [])))) = 3"
    "length (filter is_row_offered (snd (loop upload_env (sending_globals, [])))) = 3"
    "length (filter is_row_accepted (snd (loop upload_env (sending_globals, [])))) = 2"
    "length (filter is_confirmation (snd (loop upload_env (sending_globals, [])))) = 2"
    by (simp_all add: upload_env_run)
  have b: "(\<forall>h. reply_handleWifiConnection backlog_env h) \<and>
      (\<forall>h. reply_checkGoogleAccessTokenReady backlog_env h) \<and>
      (\<forall>h. 0 < reply_getTotalWeatherDataEntries backlog_env h)"
    by (simp add: backlog_env_def quiet_env_def)
  from sending_step [OF s, of backlog_env "[]"] b
  have "length (filter is_entry_peeked (snd (loop backlog_env (sending_globals, [])))) = 20"
    by auto
  with s new counts show ?thesis
    by simp
qed


end
